theory Spec2Isabelle
  imports Main "HOL-Library.Char_ord" "HOL-Library.List_Lexorder"
begin

section \<open>Exceptions as values\<close>

text \<open>
  Every \<^verbatim>\<open>raise\<close> of the two modules, and every exception a Python builtin raises on the
  paths that are modelled, is a value of \<open>error\<close>; a computation that may raise returns
  \<open>error + 'a\<close>, with \<open>Inl\<close> for the exception.
\<close>

datatype error =
    QuantumFunctionError string
  | AutoGraphError string
  | AssertionError
  | TypeError
  | IndexError
  | KeyError
  | ValueError
  | RuntimeError

definition and_then :: "error + 'a \<Rightarrow> ('a \<Rightarrow> error + 'b) \<Rightarrow> error + 'b" where
  "and_then r f = (case r of Inl e \<Rightarrow> Inl e | Inr v \<Rightarrow> f v)"

text \<open>Evaluating a comprehension left to right: the first element that raises ends it.\<close>

fun traverse :: "('x \<Rightarrow> error + 'y) \<Rightarrow> 'x list \<Rightarrow> error + 'y list" where
  "traverse f [] = Inr []"
| "traverse f (x # xs) =
     and_then (f x) (\<lambda>y. and_then (traverse f xs) (\<lambda>ys. Inr (y # ys)))"

section \<open>mid\_measure.py: measurement records and measurement values\<close>

text \<open>
  \<^verbatim>\<open>MidMeasureMP\<close>: the wires (a \<^verbatim>\<open>Wires\<close> container, here the list of its labels), the reset
  flag, the optional postselection value and the id. The id is the string that
  \<^verbatim>\<open>_measure_impl\<close> passes (\<^verbatim>\<open>str(uuid.uuid4())\<close>); the field is called \<open>id_mp\<close> because
  \<open>id\<close> is the identity function of HOL.
\<close>

record 'w MidMeasureMP =
  wires :: "'w list"
  reset :: bool
  postselect :: "int option"
  id_mp :: string


text \<open>
  \<^verbatim>\<open>MeasurementValue\<close>: the measurements it depends on and the processing function. The
  function is called with one positional argument per measurement (\<^verbatim>\<open>processing_fn(*branch)\<close>),
  here the list of the arguments, and may raise.
\<close>

record ('w, 'a) MeasurementValue =
  measurements :: "'w MidMeasureMP list"
  processing_fn :: "int list \<Rightarrow> error + 'a"

subsection \<open>\_measure\_impl\<close>

text \<open>\<^verbatim>\<open>lambda v: v\<close>: exactly one positional argument, any other number is a \<^verbatim>\<open>TypeError\<close>.\<close>

fun identity_fn :: "int list \<Rightarrow> error + int" where
  "identity_fn [v] = Inr v"
| "identity_fn _ = Inl TypeError"

text \<open>
  Modelled from the spec: the constructor of the base class \<^verbatim>\<open>MeasurementProcess\<close>, which is
  not part of the two modules and which \<^verbatim>\<open>MidMeasureMP.__init__\<close> calls with the wires and the
  id. The spec has the construction of a record validate that the target resolves to
  exactly one location and raise a domain error otherwise. A target of several locations
  is refused by \<^verbatim>\<open>_measure_impl\<close> before the record is built; what is left to the constructor
  is the target without a location, which it refuses with a \<^verbatim>\<open>ValueError\<close>.
\<close>

definition init_MeasurementProcess :: "'w list \<Rightarrow> string \<Rightarrow> error + unit" where
  "init_MeasurementProcess wires_arg id_arg =
     (if length wires_arg = 0 then Inl ValueError else Inr ())"

text \<open>
  \<^verbatim>\<open>MidMeasureMP.__init__\<close>: the base constructor first, then the two attributes of the class,
  stored as they are given.
\<close>

definition init_MidMeasureMP ::
  "'w list \<Rightarrow> bool \<Rightarrow> int option \<Rightarrow> string \<Rightarrow> error + 'w MidMeasureMP" where
  "init_MidMeasureMP wires_arg reset_arg postselect_arg id_arg =
     and_then (init_MeasurementProcess wires_arg id_arg)
       (\<lambda>_. Inr \<lparr>wires = wires_arg, reset = reset_arg, postselect = postselect_arg,
                   id_mp = id_arg\<rparr>)"

text \<open>
  \<^verbatim>\<open>_measure_impl\<close>. Its first argument here is the value of \<^verbatim>\<open>Wires(wires)\<close>, the list of
  labels the target resolves to (the \<^verbatim>\<open>Wires\<close> class is not part of the two modules), and
  \<open>measurement_id\<close> is the string drawn by \<^verbatim>\<open>str(uuid.uuid4())\<close>.
\<close>

definition measure_impl ::
  "'w list \<Rightarrow> bool \<Rightarrow> int option \<Rightarrow> string \<Rightarrow> error + ('w, int) MeasurementValue" where
  "measure_impl wires_arg reset_arg postselect_arg measurement_id =
     (if length wires_arg > 1
      then Inl (QuantumFunctionError
                  ''Only a single qubit can be measured in the middle of the circuit'')
      else
        and_then (init_MidMeasureMP wires_arg reset_arg postselect_arg measurement_id)
          (\<lambda>mp. Inr \<lparr>measurements = [mp], processing_fn = identity_fn\<rparr>))"

subsection \<open>Enumerating the branches\<close>

text \<open>
  \<^verbatim>\<open>f"{i:0{num_meas}b}"\<close>: the binary digits of \<open>i\<close>, most significant first and at least
  one of them (\<open>0\<close> is \<^verbatim>\<open>"0"\<close>), padded on the left with \<^verbatim>\<open>'0'\<close> up to the width. A width the
  digits exceed, the width 0 among them, leaves the digits as they are.
\<close>

fun bin :: "nat \<Rightarrow> string" where
  "bin i = (if i < 2 then [if i = 0 then CHR ''0'' else CHR ''1'']
            else bin (i div 2) @ [if i mod 2 = 0 then CHR ''0'' else CHR ''1''])"

declare bin.simps [simp del]

definition format_0b :: "nat \<Rightarrow> nat \<Rightarrow> string" where
  "format_0b width i = replicate (width - length (bin i)) CHR ''0'' @ bin i"

text \<open>\<^verbatim>\<open>int(b)\<close> on a character of such a string.\<close>

definition int_of_digit :: "char \<Rightarrow> int" where
  "int_of_digit b = (if b = CHR ''1'' then 1 else 0)"

text \<open>\<^verbatim>\<open>tuple(int(b) for b in f"{i:0{num_meas}b}")\<close>\<close>

definition branch_of :: "nat \<Rightarrow> nat \<Rightarrow> int list" where
  "branch_of num_meas i = map int_of_digit (format_0b num_meas i)"

text \<open>
  \<^verbatim>\<open>items\<close> is a generator. The model is the list of everything it yields when it is run to
  its end, or the exception of the first entry whose evaluation raises.
\<close>

definition items :: "('w, 'a) MeasurementValue \<Rightarrow> error + (int list \<times> 'a) list" where
  "items self =
     (let num_meas = length (measurements self)
      in traverse
           (\<lambda>i. let branch = branch_of num_meas i
                in and_then (processing_fn self branch) (\<lambda>v. Inr (branch, v)))
           [0 ..< 2 ^ num_meas])"

text \<open>
  In \<^verbatim>\<open>postselected_items\<close> the dictionary \<^verbatim>\<open>ps\<close> maps the position of every measurement whose
  \<^verbatim>\<open>postselect\<close> is not \<^verbatim>\<open>None\<close> to that value; it is built in the order of the positions, which
  is the order of \<^verbatim>\<open>ps.values()\<close>.
\<close>

definition ps_of :: "'w MidMeasureMP list \<Rightarrow> (nat \<times> int) list" where
  "ps_of ms = List.map_filter (\<lambda>(i, m). map_option (Pair i) (postselect m)) (enumerate 0 ms)"

text \<open>
  The full branch: position \<open>j\<close> takes \<^verbatim>\<open>ps[j]\<close> when \<open>j\<close> is a key of \<^verbatim>\<open>ps\<close> and the next
  element of the iterator over the reduced branch otherwise. \<^verbatim>\<open>next\<close> on an exhausted
  iterator inside the generator expression surfaces as a \<^verbatim>\<open>RuntimeError\<close>.
\<close>

fun full_branch :: "(nat \<times> int) list \<Rightarrow> nat list \<Rightarrow> int list \<Rightarrow> error + int list" where
  "full_branch ps [] non_ps_branch_iter = Inr []"
| "full_branch ps (j # js) non_ps_branch_iter =
     (case map_of ps j of
        Some p \<Rightarrow> and_then (full_branch ps js non_ps_branch_iter) (\<lambda>r. Inr (p # r))
      | None \<Rightarrow>
          (case non_ps_branch_iter of
             [] \<Rightarrow> Inl RuntimeError
           | b # rest \<Rightarrow> and_then (full_branch ps js rest) (\<lambda>r. Inr (b # r))))"

definition postselected_items ::
  "('w, 'a) MeasurementValue \<Rightarrow> error + (int list \<times> 'a) list" where
  "postselected_items self =
     (let ps = ps_of (measurements self);
          num_non_ps = length (measurements self) - length ps
      in if num_non_ps = 0
         then and_then (processing_fn self (map snd ps)) (\<lambda>v. Inr [([], v)])
         else traverse
                (\<lambda>i. let non_ps_branch = branch_of num_non_ps i
                     in and_then
                          (full_branch ps [0 ..< length (measurements self)] non_ps_branch)
                          (\<lambda>fb. and_then (processing_fn self fb)
                                   (\<lambda>v. Inr (non_ps_branch, v))))
                [0 ..< 2 ^ num_non_ps])"

subsection \<open>Composition\<close>

text \<open>\<^verbatim>\<open>_apply\<close>: the post computation \<open>fn\<close> after the processing function.\<close>

definition apply_mv ::
  "('w, 'a) MeasurementValue \<Rightarrow> ('a \<Rightarrow> error + 'b) \<Rightarrow> ('w, 'b) MeasurementValue" where
  "apply_mv self fn =
     \<lparr>measurements = measurements self,
      processing_fn = (\<lambda>x. and_then (processing_fn self x) fn)\<rparr>"

text \<open>
  \<^verbatim>\<open>concretize\<close>: the dictionary is a map from measurement records to their values, a missing
  key is a \<^verbatim>\<open>KeyError\<close>.
\<close>

definition concretize ::
  "('w, 'a) MeasurementValue \<Rightarrow> ('w MidMeasureMP \<rightharpoonup> int) \<Rightarrow> error + 'a" where
  "concretize self outcomes =
     and_then
       (traverse (\<lambda>meas. case outcomes meas of None \<Rightarrow> Inl KeyError | Some v \<Rightarrow> Inr v)
          (measurements self))
       (processing_fn self)"

text \<open>\<^verbatim>\<open>list.index\<close>: the first position holding an equal element, \<^verbatim>\<open>ValueError\<close> without one.\<close>

fun index :: "'a list \<Rightarrow> 'a \<Rightarrow> error + nat" where
  "index [] m = Inl ValueError"
| "index (y # ys) m = (if y = m then Inr 0 else and_then (index ys m) (\<lambda>i. Inr (Suc i)))"

text \<open>
  The generator expressions \<^verbatim>\<open>sub_args_1\<close> and \<^verbatim>\<open>sub_args_2\<close> of \<^verbatim>\<open>merged_fn\<close>. The list of
  positions \<^verbatim>\<open>[merged_measurements.index(m) for m in ...]\<close> is computed when the expression
  is created; the reads \<^verbatim>\<open>x[i]\<close> happen when the expression is unpacked into the call of
  the processing function, and raise \<^verbatim>\<open>IndexError\<close> beyond the end of \<open>x\<close>.
\<close>

definition positions :: "'m list \<Rightarrow> 'm list \<Rightarrow> error + nat list" where
  "positions merged_measurements ms = traverse (index merged_measurements) ms"

definition sub_args :: "int list \<Rightarrow> nat list \<Rightarrow> error + int list" where
  "sub_args x idxs =
     traverse (\<lambda>i. if i < length x then Inr (x ! i) else Inl IndexError) idxs"

text \<open>
  \<^verbatim>\<open>_merge\<close>. A Python set keeps one element of each class of objects that have the same
  hash and compare equal. For a measurement process both come from the base class
  \<^verbatim>\<open>MeasurementProcess\<close>, which is not part of the two modules: the hash is the \<open>hash\<close>
  property above, and two mid-circuit measurements are equal when their wires, id, reset
  flag and postselection value are, which is the equality of the record type here (so
  equal records have the same \<open>hash\<close>, and records with different wires or ids are
  different elements). The order in which \<^verbatim>\<open>list\<close> reads a set is not determined by the
  language; \<open>remdups\<close> fixes one such order, and it matters only among records that share
  an id. \<^verbatim>\<open>list.sort\<close> is stable, as \<open>sort_key\<close> is, and Python compares strings as HOL
  compares character lists.
\<close>

definition merge ::
  "('w, 'a) MeasurementValue \<Rightarrow> ('w, 'b) MeasurementValue \<Rightarrow> ('w, 'a \<times> 'b) MeasurementValue"
  where
  "merge self other =
     (let merged_measurements =
            sort_key id_mp (remdups (measurements self @ measurements other))
      in \<lparr>measurements = merged_measurements,
          processing_fn =
            (\<lambda>x. and_then (positions merged_measurements (measurements self)) (\<lambda>is_1.
                 and_then (positions merged_measurements (measurements other)) (\<lambda>is_2.
                 and_then (sub_args x is_1) (\<lambda>sub_args_1.
                 and_then (processing_fn self sub_args_1) (\<lambda>out_1.
                 and_then (sub_args x is_2) (\<lambda>sub_args_2.
                 and_then (processing_fn other sub_args_2) (\<lambda>out_2.
                 Inr (out_1, out_2))))))))\<rparr>)"

text \<open>
  \<^verbatim>\<open>_transform_bin_op\<close>: the other operand is a measurement value, which is merged in, or
  any other object, which is passed to \<open>base_bin\<close> on every branch.
\<close>

datatype ('w, 'b) operand =
    Measured "('w, 'b) MeasurementValue"
  | Scalar 'b

definition transform_bin_op ::
  "('a \<Rightarrow> 'b \<Rightarrow> error + 'c) \<Rightarrow> ('w, 'a) MeasurementValue \<Rightarrow> ('w, 'b) operand
     \<Rightarrow> ('w, 'c) MeasurementValue" where
  "transform_bin_op base_bin self other =
     (case other of
        Measured mv \<Rightarrow> apply_mv (merge self mv) (\<lambda>t. base_bin (fst t) (snd t))
      | Scalar c \<Rightarrow> apply_mv self (\<lambda>v. base_bin v c))"

text \<open>
  \<^verbatim>\<open>qml.math.logical_not\<close> and \<^verbatim>\<open>qml.math.logical_and\<close> dispatch to the array library; on truth
  values they are negation and conjunction.
\<close>

definition logical_not :: "bool \<Rightarrow> error + bool" where
  "logical_not a = Inr (\<not> a)"

definition logical_and :: "bool \<Rightarrow> bool \<Rightarrow> error + bool" where
  "logical_and a b = Inr (a \<and> b)"

text \<open>\<^verbatim>\<open>__invert__\<close> (\<^verbatim>\<open>~\<close>) and \<^verbatim>\<open>__and__\<close> (\<^verbatim>\<open>&\<close>).\<close>

definition invert :: "('w, bool) MeasurementValue \<Rightarrow> ('w, bool) MeasurementValue" where
  "invert self = apply_mv self logical_not"

definition and_mv ::
  "('w, bool) MeasurementValue \<Rightarrow> ('w, bool) operand \<Rightarrow> ('w, bool) MeasurementValue" where
  "and_mv self other = transform_bin_op logical_and self other"

text \<open>
  Modelled from the spec: \<^verbatim>\<open>MidMeasureMP.map_wires\<close>, which the class inherits from
  \<^verbatim>\<open>MeasurementProcess\<close> (not part of the two modules). The spec describes it as a copy that
  keeps the postselect and reset attributes and the identity and is retargeted to the
  new wires; a wire that the map does not mention is kept.
\<close>

definition map_wires_mp :: "'w MidMeasureMP \<Rightarrow> ('w \<rightharpoonup> 'w) \<Rightarrow> 'w MidMeasureMP" where
  "map_wires_mp m wire_map =
     m\<lparr>wires := map (\<lambda>w. case wire_map w of Some w' \<Rightarrow> w' | None \<Rightarrow> w) (wires m)\<rparr>"

text \<open>\<^verbatim>\<open>MeasurementValue.map_wires\<close>\<close>

definition map_wires ::
  "('w, 'a) MeasurementValue \<Rightarrow> ('w \<rightharpoonup> 'w) \<Rightarrow> ('w, 'a) MeasurementValue" where
  "map_wires self wire_map =
     \<lparr>measurements = map (\<lambda>m. map_wires_mp m wire_map) (measurements self),
      processing_fn = processing_fn self\<rparr>"

subsection \<open>get\_mcm\_predicates\<close>

text \<open>
  The loop over \<^verbatim>\<open>conditions[1:]\<close>, with the list \<^verbatim>\<open>new_conds\<close> and the value \<^verbatim>\<open>false_cond\<close> it
  updates, followed by the final \<^verbatim>\<open>append\<close>.
\<close>

fun mcm_loop ::
  "('w, bool) MeasurementValue list \<Rightarrow> ('w, bool) MeasurementValue list
     \<Rightarrow> ('w, bool) MeasurementValue \<Rightarrow> ('w, bool) MeasurementValue list" where
  "mcm_loop [] new_conds false_cond = new_conds @ [false_cond]"
| "mcm_loop (c # cs) new_conds false_cond =
     mcm_loop cs (new_conds @ [and_mv false_cond (Measured c)])
       (and_mv false_cond (Measured (invert c)))"

text \<open>\<^verbatim>\<open>conditions[0]\<close> on an empty sequence is an \<^verbatim>\<open>IndexError\<close>.\<close>

fun get_mcm_predicates ::
  "('w, bool) MeasurementValue list \<Rightarrow> error + ('w, bool) MeasurementValue list" where
  "get_mcm_predicates [] = Inl IndexError"
| "get_mcm_predicates (c0 # cs) = Inr (mcm_loop cs [c0] (invert c0))"

subsection \<open>find\_post\_processed\_mcms\<close>

text \<open>
  An operation of the circuit is a \<^verbatim>\<open>MidMeasureMP\<close> or something else. Of a terminal
  measurement the function reads the attribute \<^verbatim>\<open>mv\<close> only: \<^verbatim>\<open>None\<close>, one measurement value
  or a list of them.
\<close>

datatype ('w, 'o) operation =
    MidMeasure "'w MidMeasureMP"
  | OtherOp 'o

datatype ('w, 'a) mv_attr =
    NoMV
  | OneMV "('w, 'a) MeasurementValue"
  | ListMV "('w, 'a) MeasurementValue list"

record ('w, 'a, 'o) circuit =
  operations :: "('w, 'o) operation list"
  circuit_measurements :: "('w, 'a) mv_attr list"

definition find_post_processed_mcms :: "('w, 'a, 'o) circuit \<Rightarrow> 'w MidMeasureMP set" where
  "find_post_processed_mcms c =
     fold
       (\<lambda>m post_processed_mcms.
          case m of
            ListMV mvs \<Rightarrow>
              fold (\<lambda>mv acc. acc \<union> set (measurements mv)) mvs post_processed_mcms
          | OneMV mv \<Rightarrow> post_processed_mcms \<union> set (measurements mv)
          | NoMV \<Rightarrow> post_processed_mcms)
       (circuit_measurements c)
       (set [op. MidMeasure op \<leftarrow> operations c, postselect op \<noteq> None])"

section \<open>ag\_primitives.py: the conditional statement\<close>






section \<open>The enumeration order in the words of the specification\<close>

text \<open>
  The \<open>n\<close>-bit binary representation of \<open>i\<close>, most significant bit first: the bit at
  position \<open>j\<close> has the weight \<open>2 ^ (n - 1 - j)\<close>.
\<close>

definition bits_msb :: "nat \<Rightarrow> nat \<Rightarrow> int list" where
  "bits_msb n i = map (\<lambda>j. int ((i div 2 ^ (n - 1 - j)) mod 2)) [0 ..< n]"

text \<open>The number that a bit vector denotes, most significant bit first.\<close>

definition bits_value :: "int list \<Rightarrow> nat" where
  "bits_value bs = foldl (\<lambda>a d. 2 * a + nat d) 0 bs"

section \<open>Facts about the error monad\<close>

lemma and_then_Inl [simp]: "and_then (Inl e) f = Inl e"
  by (simp add: and_then_def)

lemma and_then_Inr [simp]: "and_then (Inr v) f = f v"
  by (simp add: and_then_def)

lemma and_then_eq_Inr: "and_then r f = Inr y \<longleftrightarrow> (\<exists>v. r = Inr v \<and> f v = Inr y)"
  by (cases r) simp_all

lemma traverse_Inr_map:
  "(\<And>x. x \<in> set xs \<Longrightarrow> f x = Inr (g x)) \<Longrightarrow> traverse f xs = Inr (map g xs)"
  by (induction xs) simp_all

lemma traverse_eq_InrD:
  "traverse f xs = Inr ys \<Longrightarrow>
     length ys = length xs \<and> (\<forall>i<length xs. f (xs ! i) = Inr (ys ! i))"
proof (induction xs arbitrary: ys)
  case Nil
  then show ?case by simp
next
  case (Cons x xs)
  from Cons.prems obtain y ys' where y: "f x = Inr y" and t: "traverse f xs = Inr ys'"
    and ys: "ys = y # ys'"
    by (auto simp: and_then_eq_Inr)
  from Cons.IH [OF t] y ys show ?case
    by (auto simp: nth_Cons split: nat.splits)
qed

section \<open>Construction of a mid-circuit measurement\<close>

text \<open>
  Claim C7, as the code has it. Construction raises whenever the target does not resolve
  to exactly one wire: the \<^verbatim>\<open>QuantumFunctionError\<close> of \<^verbatim>\<open>_measure_impl\<close> for more than one wire,
  the \<^verbatim>\<open>ValueError\<close> of the constructor for none. The postselection value is not looked at:
  for a target of exactly one wire, whatever the postselection value, \<^verbatim>\<open>_measure_impl\<close>
  returns a measurement value over one new record that carries the given wires, reset
  flag, postselection value and id, and whose processing function returns its single
  argument.
\<close>

theorem measure_impl_construction:
  "(length ws > 1 \<longrightarrow>
      measure_impl ws r ps mid =
        Inl (QuantumFunctionError
               ''Only a single qubit can be measured in the middle of the circuit''))
   \<and> (length ws = 0 \<longrightarrow> measure_impl ws r ps mid = Inl ValueError)
   \<and> (length ws = 1 \<longrightarrow>
        (\<exists>mv. measure_impl ws r ps mid = Inr mv
            \<and> measurements mv = [\<lparr>wires = ws, reset = r, postselect = ps, id_mp = mid\<rparr>]
            \<and> (\<forall>v. processing_fn mv [v] = Inr v)))"
  by (simp add: measure_impl_def init_MidMeasureMP_def init_MeasurementProcess_def)

theorem measure_impl_construction_witness:
  "measure_impl [0::nat, 1] False None ''a'' =
        Inl (QuantumFunctionError
               ''Only a single qubit can be measured in the middle of the circuit'')
   \<and> measure_impl ([]::nat list) False None ''a'' = Inl ValueError
   \<and> (\<exists>mv. measure_impl [0::nat] True (Some 1) ''a'' = Inr mv
            \<and> measurements mv =
                [\<lparr>wires = [0], reset = True, postselect = Some 1, id_mp = ''a''\<rparr>]
            \<and> (\<forall>v. processing_fn mv [v] = Inr v))"
  using measure_impl_construction [of "[0::nat, 1]" False None "''a''"]
    measure_impl_construction [of "[]::nat list" False None "''a''"]
    measure_impl_construction [of "[0::nat]" True "Some 1" "''a''"]
  by simp

text \<open>
  Claim C7 as the specification states it fails for the postselection value: 2 is neither
  0, 1 nor unconstrained, and the construction on one wire succeeds with it.
\<close>

theorem measure_impl_no_validation_counterexample:
  "measure_impl [0::nat] False (Some 2) ''a'' =
     Inr \<lparr>measurements = [\<lparr>wires = [0], reset = False, postselect = Some 2, id_mp = ''a''\<rparr>],
          processing_fn = identity_fn\<rparr>"
  by (simp add: measure_impl_def init_MidMeasureMP_def init_MeasurementProcess_def)

section \<open>The definedness check of the conditional statement\<close>









section \<open>The post-processing dependency scan\<close>

lemma fold_union_measurements:
  "fold (\<lambda>mv acc. acc \<union> set (measurements mv)) mvs S =
     S \<union> (\<Union>mv\<in>set mvs. set (measurements mv))"
  by (induction mvs arbitrary: S) auto

lemma fold_mv_attr:
  "fold
     (\<lambda>m post_processed_mcms.
        case m of
          ListMV mvs \<Rightarrow> fold (\<lambda>mv acc. acc \<union> set (measurements mv)) mvs post_processed_mcms
        | OneMV mv \<Rightarrow> post_processed_mcms \<union> set (measurements mv)
        | NoMV \<Rightarrow> post_processed_mcms) ms S =
   S \<union> {r. \<exists>m\<in>set ms. \<exists>mv. (m = OneMV mv \<or> (\<exists>mvs. m = ListMV mvs \<and> mv \<in> set mvs))
                \<and> r \<in> set (measurements mv)}"
proof (induction ms arbitrary: S)
  case Nil
  then show ?case by simp
next
  case (Cons m ms)
  show ?case
    by (cases m) (auto simp: Cons.IH fold_union_measurements)
qed

text \<open>
  Claim C8. The result of \<^verbatim>\<open>find_post_processed_mcms\<close> is exactly the set of the records that
  are a postselected mid-circuit measurement among the operations of the circuit, or are
  among the measurements of a measurement value that a terminal measurement carries, as
  its single value or in its list of values. The result is characterised as a set, so it
  does not depend on any order.
\<close>

theorem find_post_processed_mcms_exact:
  "find_post_processed_mcms c =
     {r. (MidMeasure r \<in> set (operations c) \<and> postselect r \<noteq> None)
       \<or> (\<exists>m\<in>set (circuit_measurements c). \<exists>mv.
            (m = OneMV mv \<or> (\<exists>mvs. m = ListMV mvs \<and> mv \<in> set mvs))
            \<and> r \<in> set (measurements mv))}"
  unfolding find_post_processed_mcms_def fold_mv_attr by auto

theorem find_post_processed_mcms_exact_witness:
  "find_post_processed_mcms
     \<lparr>operations =
        [MidMeasure \<lparr>wires = [0::nat], reset = False, postselect = Some 1, id_mp = ''a''\<rparr>,
         OtherOp (),
         MidMeasure \<lparr>wires = [1], reset = False, postselect = None, id_mp = ''b''\<rparr>,
         MidMeasure \<lparr>wires = [2], reset = False, postselect = None, id_mp = ''c''\<rparr>],
      circuit_measurements =
        [NoMV,
         OneMV \<lparr>measurements =
                  [\<lparr>wires = [1], reset = False, postselect = None, id_mp = ''b''\<rparr>],
                processing_fn = identity_fn\<rparr>]\<rparr>
   = {\<lparr>wires = [0], reset = False, postselect = Some 1, id_mp = ''a''\<rparr>,
      \<lparr>wires = [1], reset = False, postselect = None, id_mp = ''b''\<rparr>}"
  unfolding find_post_processed_mcms_exact by auto

section \<open>Binary counting\<close>

lemma length_bin_pos: "0 < length (bin i)"
  by (subst bin.simps) simp

lemma bin_small: "i < 2 \<Longrightarrow> bin i = [if i = 0 then CHR ''0'' else CHR ''1'']"
  by (subst bin.simps) simp

lemma bin_large:
  "\<not> i < 2 \<Longrightarrow> bin i = bin (i div 2) @ [if i mod 2 = 0 then CHR ''0'' else CHR ''1'']"
  by (subst bin.simps) simp

lemma format_0b_Suc:
  assumes "0 < n"
  shows "format_0b (Suc n) i =
           format_0b n (i div 2) @ [if i mod 2 = 0 then CHR ''0'' else CHR ''1'']"
proof (cases "i < 2")
  case True
  then have d: "i div 2 = 0" by simp
  have m: "(i mod 2 = 0) = (i = 0)" using True by auto
  have "replicate (n - Suc 0) CHR ''0'' @ [CHR ''0''] = replicate n CHR ''0''"
    using assms by (cases n) (simp_all add: replicate_append_same)
  then show ?thesis
    using True by (simp add: format_0b_def d m bin_small)
next
  case False
  then show ?thesis
    by (simp add: format_0b_def bin_large)
qed

lemma branch_of_Suc:
  "0 < n \<Longrightarrow> branch_of (Suc n) i = branch_of n (i div 2) @ [int (i mod 2)]"
  by (auto simp: branch_of_def format_0b_Suc int_of_digit_def)

lemma bits_msb_Suc: "bits_msb (Suc n) i = bits_msb n (i div 2) @ [int (i mod 2)]"
proof -
  have "\<And>j. j < n \<Longrightarrow> i div 2 ^ (n - j) = (i div 2) div 2 ^ (n - 1 - j)"
  proof -
    fix j assume "j < n"
    then have "n - j = Suc (n - 1 - j)" by simp
    then show "i div 2 ^ (n - j) = (i div 2) div 2 ^ (n - 1 - j)"
      by (simp add: div_mult2_eq)
  qed
  then show ?thesis
    by (simp add: bits_msb_def)
qed

lemma branch_of_bits_msb: "0 < n \<Longrightarrow> i < 2 ^ n \<Longrightarrow> branch_of n i = bits_msb n i"
proof (induction n arbitrary: i)
  case 0
  then show ?case by simp
next
  case (Suc n)
  show ?case
  proof (cases "n = 0")
    case True
    with Suc.prems have "i < 2" by simp
    then show ?thesis using True
      by (auto simp: branch_of_def format_0b_def bin_small bits_msb_def int_of_digit_def)
  next
    case False
    from Suc.prems have "i div 2 < 2 ^ n" by auto
    with False Suc.IH have "branch_of n (i div 2) = bits_msb n (i div 2)" by simp
    with False show ?thesis by (simp add: branch_of_Suc bits_msb_Suc)
  qed
qed

lemma length_bits_msb [simp]: "length (bits_msb n i) = n"
  by (simp add: bits_msb_def)

lemma set_bits_msb: "set (bits_msb n i) \<subseteq> {0, 1}"
  by (auto simp: bits_msb_def)

lemma bits_value_snoc: "bits_value (bs @ [d]) = 2 * bits_value bs + nat d"
  by (simp add: bits_value_def)

lemma bits_value_bits_msb: "i < 2 ^ n \<Longrightarrow> bits_value (bits_msb n i) = i"
proof (induction n arbitrary: i)
  case 0
  then show ?case by (simp add: bits_msb_def bits_value_def)
next
  case (Suc n)
  from Suc.prems have "i div 2 < 2 ^ n" by auto
  with Suc.IH have "bits_value (bits_msb n (i div 2)) = i div 2" by simp
  then show ?case
    by (simp add: bits_msb_Suc bits_value_snoc)
qed

lemma bits_msb_bits_value:
  "set bs \<subseteq> {0, 1} \<Longrightarrow> bits_value bs < 2 ^ length bs \<and> bits_msb (length bs) (bits_value bs) = bs"
proof (induction bs rule: rev_induct)
  case Nil
  then show ?case by (simp add: bits_msb_def bits_value_def)
next
  case (snoc d bs)
  then have IH: "bits_value bs < 2 ^ length bs" "bits_msb (length bs) (bits_value bs) = bs"
    and d: "d = 0 \<or> d = 1"
    by auto
  from d have dv: "(2 * bits_value bs + nat d) div 2 = bits_value bs"
    and dm: "int ((2 * bits_value bs + nat d) mod 2) = d"
    and dl: "nat d \<le> 1"
    by auto
  from IH(1) dl have "2 * bits_value bs + nat d < 2 ^ Suc (length bs)" by simp
  with IH(2) dv dm show ?case
    by (simp add: bits_value_snoc bits_msb_Suc)
qed

lemma inj_on_bits_msb: "inj_on (bits_msb n) {..<2 ^ n}"
  by (rule inj_on_inverseI [where g = bits_value]) (simp add: bits_value_bits_msb)

lemma distinct_bits_msb: "distinct (map (bits_msb n) [0 ..< 2 ^ n])"
  using inj_on_bits_msb [of n] by (simp add: distinct_map atLeast0LessThan)

lemma set_all_bits_msb:
  "bits_msb n ` {..<2 ^ n} = {b. length b = n \<and> set b \<subseteq> {0, 1}}"
proof (intro set_eqI iffI)
  fix b assume "b \<in> bits_msb n ` {..<2 ^ n}"
  then show "b \<in> {b. length b = n \<and> set b \<subseteq> {0, 1}}"
    using set_bits_msb by auto
next
  fix b :: "int list" assume "b \<in> {b. length b = n \<and> set b \<subseteq> {0, 1}}"
  then have l: "length b = n" and s: "set b \<subseteq> {0, 1}" by auto
  from bits_msb_bits_value [OF s] l show "b \<in> bits_msb n ` {..<2 ^ n}"
    by (intro image_eqI [where x = "bits_value b"]) auto
qed

section \<open>Full enumeration\<close>

text \<open>
  Every operation of the module that builds a measurement value gives it at least one
  measurement: \<^verbatim>\<open>_measure_impl\<close> gives it one, \<^verbatim>\<open>_apply\<close> and \<^verbatim>\<open>map_wires\<close> keep the number,
  \<^verbatim>\<open>_merge\<close> takes the union, and the operators are made of these.
\<close>

lemma measurements_nonempty:
  "(measure_impl ws r ps mid = Inr mv \<longrightarrow> measurements mv \<noteq> [])
   \<and> (measurements A \<noteq> [] \<longrightarrow> measurements (apply_mv A fn) \<noteq> [])
   \<and> (measurements A \<noteq> [] \<longrightarrow> measurements (map_wires A wire_map) \<noteq> [])
   \<and> (measurements A \<noteq> [] \<or> measurements B \<noteq> [] \<longrightarrow> measurements (merge A B) \<noteq> [])"
proof -
  have "set (measurements (merge A B)) = set (measurements A) \<union> set (measurements B)"
    by (simp add: merge_def Let_def)
  then have "measurements A \<noteq> [] \<or> measurements B \<noteq> [] \<longrightarrow> measurements (merge A B) \<noteq> []"
    by (metis Un_empty set_empty)
  moreover have "measure_impl ws r ps mid = Inr mv \<longrightarrow> measurements mv \<noteq> []"
    by (auto simp: measure_impl_def and_then_eq_Inr split: if_splits)
  ultimately show ?thesis
    by (simp add: apply_mv_def map_wires_def)
qed

text \<open>
  Claim C4. Let the measurement value have \<open>n\<close> measurements, at least one as every value
  that the module builds, and let its processing function return on every bit vector of
  length \<open>n\<close>. \<^verbatim>\<open>items\<close> yields exactly
  \<open>2 ^ n\<close> entries; the assignment of entry \<open>i\<close> is the \<open>n\<close>-bit binary representation
  of \<open>i\<close>, most significant bit first, and it is paired with the processing function
  evaluated on it; the assignments are pairwise distinct and are all the bit vectors of
  length \<open>n\<close>.
\<close>

theorem items_enumeration:
  assumes nonempty: "measurements mv \<noteq> []"
    and total: "\<forall>b. length b = length (measurements mv) \<and> set b \<subseteq> {0, 1} \<longrightarrow>
                  (\<exists>v. processing_fn mv b = Inr v)"
  shows "\<exists>es. items mv = Inr es
           \<and> length es = 2 ^ length (measurements mv)
           \<and> (\<forall>i<2 ^ length (measurements mv).
                 fst (es ! i) = bits_msb (length (measurements mv)) i
               \<and> processing_fn mv (fst (es ! i)) = Inr (snd (es ! i)))
           \<and> distinct (map fst es)
           \<and> set (map fst es) = {b. length b = length (measurements mv) \<and> set b \<subseteq> {0, 1}}"
proof -
  define n where "n = length (measurements mv)"
  define g where "g i = (bits_msb n i, projr (processing_fn mv (bits_msb n i)))" for i
  define es where "es = map g [0 ..< 2 ^ n]"
  have n: "0 < n" using nonempty by (simp add: n_def)
  have val: "processing_fn mv (bits_msb n i) = Inr (snd (g i))" for i
  proof -
    have "length (bits_msb n i) = length (measurements mv) \<and> set (bits_msb n i) \<subseteq> {0, 1}"
      using set_bits_msb [of n i] by (simp add: n_def)
    with total obtain v where "processing_fn mv (bits_msb n i) = Inr v"
      by blast
    then show ?thesis by (simp add: g_def)
  qed
  have step: "(let branch = branch_of n i
               in and_then (processing_fn mv branch) (\<lambda>v. Inr (branch, v))) = Inr (g i)"
    if "i \<in> set [0 ..< 2 ^ n]" for i
  proof -
    from that n have b: "branch_of n i = bits_msb n i" by (simp add: branch_of_bits_msb)
    have "fst (g i) = bits_msb n i" by (simp add: g_def)
    then have "and_then (processing_fn mv (bits_msb n i)) (\<lambda>v. Inr (bits_msb n i, v)) = Inr (g i)"
      by (simp only: val and_then_Inr) (simp add: prod_eq_iff)
    with b show ?thesis by (simp only: Let_def)
  qed
  have items: "items mv = Inr es"
    unfolding items_def Let_def n_def [symmetric] es_def
    using step by (intro traverse_Inr_map) (simp add: Let_def)
  have fst_es: "map fst es = map (bits_msb n) [0 ..< 2 ^ n]"
    by (simp add: es_def g_def)
  have "length es = 2 ^ n" by (simp add: es_def)
  moreover have "\<forall>i<2 ^ n. fst (es ! i) = bits_msb n i
      \<and> processing_fn mv (fst (es ! i)) = Inr (snd (es ! i))"
  proof (intro allI impI conjI)
    fix i :: nat assume "i < 2 ^ n"
    then have e: "es ! i = g i" by (simp add: es_def)
    show "fst (es ! i) = bits_msb n i" by (simp add: e g_def)
    then show "processing_fn mv (fst (es ! i)) = Inr (snd (es ! i))"
      by (simp only: val e)
  qed
  moreover have "distinct (map fst es)"
    unfolding fst_es by (rule distinct_bits_msb)
  moreover have "set (map fst es) = {b. length b = n \<and> set b \<subseteq> {0, 1}}"
    unfolding fst_es using set_all_bits_msb [of n] by (simp add: atLeast0LessThan)
  ultimately show ?thesis using items unfolding n_def by blast
qed

text \<open>
  A value without measurements, which no operation builds, is outside of this: on the
  empty list \<^verbatim>\<open>f"{0:00b}"\<close> is \<^verbatim>\<open>"0"\<close>, so \<^verbatim>\<open>items\<close> evaluates the processing function on the
  one-element branch \<open>(0,)\<close>, where \<^verbatim>\<open>postselected_items\<close>, which treats the case apart, and
  \<^verbatim>\<open>concretize\<close> evaluate it on no argument.
\<close>

lemma no_measurements_enumeration:
  "items \<lparr>measurements = ([] :: nat MidMeasureMP list),
          processing_fn = (\<lambda>x. Inr (length x))\<rparr> = Inr [([0], 1)]
   \<and> postselected_items \<lparr>measurements = ([] :: nat MidMeasureMP list),
          processing_fn = (\<lambda>x. Inr (length x))\<rparr> = Inr [([], 0)]
   \<and> concretize \<lparr>measurements = ([] :: nat MidMeasureMP list),
          processing_fn = (\<lambda>x. Inr (length x))\<rparr> Map.empty = Inr 0"
  by (simp add: items_def postselected_items_def ps_of_def List.map_filter_simps
      branch_of_def format_0b_def bin_small int_of_digit_def concretize_def)

lemma identity_fn_single: "length b = Suc 0 \<Longrightarrow> \<exists>v. identity_fn b = Inr v"
  by (cases b) auto

theorem items_enumeration_witness:
  "\<exists>es. items \<lparr>measurements =
                  [\<lparr>wires = [0::nat], reset = False, postselect = None, id_mp = ''a''\<rparr>],
                processing_fn = identity_fn\<rparr> = Inr es
      \<and> length es = 2 \<and> fst (es ! 0) = [0] \<and> fst (es ! 1) = [1] \<and> distinct (map fst es)"
proof -
  let ?mv = "\<lparr>measurements =
                  [\<lparr>wires = [0::nat], reset = False, postselect = None, id_mp = ''a''\<rparr>],
                processing_fn = identity_fn\<rparr>"
  have 1: "measurements ?mv \<noteq> []" by simp
  have 2: "\<forall>b. length b = length (measurements ?mv) \<and> set b \<subseteq> {0, 1} \<longrightarrow>
                  (\<exists>v. processing_fn ?mv b = Inr v)"
    by (simp add: identity_fn_single)
  from items_enumeration [OF 1 2] obtain es where es: "items ?mv = Inr es"
    "length es = 2 ^ length (measurements ?mv)"
    "\<forall>i<2 ^ length (measurements ?mv).
                 fst (es ! i) = bits_msb (length (measurements ?mv)) i
               \<and> processing_fn ?mv (fst (es ! i)) = Inr (snd (es ! i))"
    "distinct (map fst es)"
    by blast
  from es(3) have "fst (es ! 0) = bits_msb 1 0" "fst (es ! 1) = bits_msb 1 1"
    by simp_all
  then have "fst (es ! 0) = [0]" "fst (es ! 1) = [1]"
    by (simp_all add: bits_msb_def)
  with es(1,2,4) show ?thesis by auto
qed

section \<open>Concretize against the enumeration\<close>

lemma traverse_lookup:
  assumes "length bs = length ms" and "\<forall>j<length ms. outcomes (ms ! j) = Some (bs ! j)"
  shows "traverse (\<lambda>meas. case outcomes meas of None \<Rightarrow> Inl KeyError | Some v \<Rightarrow> Inr v) ms
           = Inr bs"
proof -
  have "traverse (\<lambda>meas. case outcomes meas of None \<Rightarrow> Inl KeyError | Some v \<Rightarrow> Inr v) ms
           = Inr (map (\<lambda>m. the (outcomes m)) ms)"
  proof (rule traverse_Inr_map)
    fix x assume "x \<in> set ms"
    then obtain j where "j < length ms" "x = ms ! j" by (auto simp: in_set_conv_nth)
    with assms(2) show "(case outcomes x of None \<Rightarrow> Inl KeyError | Some v \<Rightarrow> Inr v)
        = Inr (the (outcomes x))"
      by simp
  qed
  moreover have "map (\<lambda>m. the (outcomes m)) ms = bs"
    using assms by (intro nth_equalityI) simp_all
  ultimately show ?thesis by simp
qed

lemma items_entry:
  assumes "items mv = Inr es" and "i < 2 ^ length (measurements mv)"
  shows "fst (es ! i) = branch_of (length (measurements mv)) i
       \<and> processing_fn mv (fst (es ! i)) = Inr (snd (es ! i))"
proof -
  from assms(1) have
    "\<forall>k<length [0 ..< 2 ^ length (measurements mv)].
       (let branch = branch_of (length (measurements mv)) ([0 ..< 2 ^ length (measurements mv)] ! k)
        in and_then (processing_fn mv branch) (\<lambda>v. Inr (branch, v))) = Inr (es ! k)"
    unfolding items_def Let_def by (auto dest: traverse_eq_InrD)
  with assms(2) have
    "and_then (processing_fn mv (branch_of (length (measurements mv)) i))
        (\<lambda>v. Inr (branch_of (length (measurements mv)) i, v)) = Inr (es ! i)"
    by (simp add: Let_def)
  then obtain v where v: "processing_fn mv (branch_of (length (measurements mv)) i) = Inr v"
    and e: "es ! i = (branch_of (length (measurements mv)) i, v)"
    by (auto simp: and_then_eq_Inr)
  show ?thesis by (simp add: e v)
qed

text \<open>
  Claim C6. Let the measurement value have at least one measurement, as every value that
  the module builds. When \<^verbatim>\<open>items\<close> runs to its end, and the outcomes send every measurement
  to the bit at its position in the assignment of entry \<open>i\<close>, \<^verbatim>\<open>concretize\<close> returns the
  output of entry \<open>i\<close>.
\<close>

theorem concretize_left_inverse:
  assumes "measurements mv \<noteq> []"
    and "items mv = Inr es"
    and "i < 2 ^ length (measurements mv)"
    and "\<forall>j<length (measurements mv). outcomes (measurements mv ! j) = Some (fst (es ! i) ! j)"
  shows "concretize mv outcomes = Inr (snd (es ! i))"
proof -
  from items_entry [OF assms(2,3)]
  have f: "fst (es ! i) = branch_of (length (measurements mv)) i"
    and v: "processing_fn mv (fst (es ! i)) = Inr (snd (es ! i))"
    by blast+
  from assms(1,3) have "branch_of (length (measurements mv)) i
      = bits_msb (length (measurements mv)) i"
    by (intro branch_of_bits_msb) simp_all
  with f have "length (fst (es ! i)) = length (measurements mv)" by simp
  from traverse_lookup [OF this assms(4)] v show ?thesis
    by (simp add: concretize_def)
qed

theorem concretize_left_inverse_witness:
  "concretize \<lparr>measurements =
                  [\<lparr>wires = [0::nat], reset = False, postselect = None, id_mp = ''a''\<rparr>],
               processing_fn = identity_fn\<rparr>
     [\<lparr>wires = [0::nat], reset = False, postselect = None, id_mp = ''a''\<rparr> \<mapsto> 1] = Inr 1"
proof -
  let ?m = "\<lparr>wires = [0::nat], reset = False, postselect = None, id_mp = ''a''\<rparr>"
  let ?mv = "\<lparr>measurements = [?m], processing_fn = identity_fn\<rparr>"
  let ?es = "[([0::int], 0::int), ([1], 1)]"
  have it: "items ?mv = Inr ?es"
    by (simp add: items_def branch_of_def format_0b_def bin_small int_of_digit_def
        upt_conv_Cons)
  have 1: "measurements ?mv \<noteq> []" by simp
  have 3: "(1::nat) < 2 ^ length (measurements ?mv)" by simp
  have 4: "\<forall>j<length (measurements ?mv).
      [?m \<mapsto> 1::int] (measurements ?mv ! j) = Some (fst (?es ! 1) ! j)"
    by simp
  have "concretize ?mv [?m \<mapsto> 1] = Inr (snd (?es ! 1))"
    using 1 it 3 4 by (rule concretize_left_inverse)
  then show ?thesis by simp
qed

section \<open>Postselection-aware enumeration\<close>

lemma map_filter_enumerate_map_of:
  "map_of (List.map_filter (\<lambda>(i, m). map_option (Pair i) (postselect m)) (enumerate a ms)) j =
     (if a \<le> j \<and> j < a + length ms then postselect (ms ! (j - a)) else None)"
proof (induction ms arbitrary: a)
  case Nil
  then show ?case by (auto simp: List.map_filter_simps)
next
  case (Cons m ms)
  have aux: "\<And>x. j - a = Suc x \<Longrightarrow> j - Suc a = x" by arith
  show ?case
  proof (cases "postselect m")
    case None
    then show ?thesis
      by (auto simp: List.map_filter_simps Cons.IH nth_Cons aux split: nat.splits)
  next
    case (Some p)
    then show ?thesis
      by (auto simp: List.map_filter_simps Cons.IH nth_Cons aux split: nat.splits)
  qed
qed

lemma map_of_ps_of:
  "map_of (ps_of ms) j = (if j < length ms then postselect (ms ! j) else None)"
  by (simp add: ps_of_def map_filter_enumerate_map_of)

lemma map_snd_map_filter_enumerate:
  "map snd (List.map_filter (\<lambda>(i, m). map_option (Pair i) (postselect m)) (enumerate a ms)) =
     map the (filter (\<lambda>x. x \<noteq> None) (map postselect ms))"
  by (induction ms arbitrary: a) (auto simp: List.map_filter_simps)

lemma length_ps_of:
  "length (ps_of ms) = length (filter (\<lambda>m. postselect m \<noteq> None) ms)"
proof -
  have "length (ps_of ms) = length (map snd (ps_of ms))" by simp
  also have "\<dots> = length (filter (\<lambda>x. x \<noteq> None) (map postselect ms))"
    by (simp add: ps_of_def map_snd_map_filter_enumerate)
  also have "\<dots> = length (filter (\<lambda>m. postselect m \<noteq> None) ms)"
    by (simp add: filter_map o_def)
  finally show ?thesis .
qed

lemma num_non_ps:
  "length ms - length (ps_of ms) = length (filter (\<lambda>m. postselect m = None) ms)"
  using sum_length_filter_compl [of "\<lambda>m. postselect m \<noteq> None" ms]
  by (simp add: length_ps_of)

lemma free_positions_count:
  "length (filter (\<lambda>j. postselect (ms ! j) = None) [0 ..< length ms]) =
     length (filter (\<lambda>m. postselect m = None) ms)"
proof -
  have "filter (\<lambda>m. postselect m = None) (map (nth ms) [0 ..< length ms]) =
          map (nth ms) (filter (\<lambda>j. postselect (ms ! j) = None) [0 ..< length ms])"
    by (simp add: filter_map o_def)
  then have "length (filter (\<lambda>m. postselect m = None) (map (nth ms) [0 ..< length ms])) =
      length (filter (\<lambda>j. postselect (ms ! j) = None) [0 ..< length ms])"
    by simp
  then show ?thesis by (simp add: map_nth)
qed

text \<open>What the full branch is, for any dictionary and any list of positions.\<close>

lemma full_branch_char:
  assumes "length it = length (filter (\<lambda>j. map_of ps j = None) js)"
  shows "\<exists>fb. full_branch ps js it = Inr fb \<and> length fb = length js
           \<and> (\<forall>t<length js. \<forall>p. map_of ps (js ! t) = Some p \<longrightarrow> fb ! t = p)
           \<and> map fst (filter (\<lambda>q. map_of ps (snd q) = None) (zip fb js)) = it"
  using assms
proof (induction js arbitrary: it)
  case Nil
  then show ?case by simp
next
  case (Cons j js)
  show ?case
  proof (cases "map_of ps j")
    case None
    with Cons.prems obtain b rest where it: "it = b # rest"
      and l: "length rest = length (filter (\<lambda>j. map_of ps j = None) js)"
      by (cases it) auto
    from Cons.IH [OF l] obtain fb where fb: "full_branch ps js rest = Inr fb"
      "length fb = length js"
      "\<forall>t<length js. \<forall>p. map_of ps (js ! t) = Some p \<longrightarrow> fb ! t = p"
      "map fst (filter (\<lambda>q. map_of ps (snd q) = None) (zip fb js)) = rest"
      by blast
    have "full_branch ps (j # js) it = Inr (b # fb)"
      using None it fb(1) by simp
    moreover have "\<forall>t<length (j # js). \<forall>p. map_of ps ((j # js) ! t) = Some p \<longrightarrow> (b # fb) ! t = p"
      using None fb(3) by (auto simp: nth_Cons split: nat.splits)
    ultimately show ?thesis
      using None it fb(2,4) by simp
  next
    case (Some p)
    with Cons.prems have l: "length it = length (filter (\<lambda>j. map_of ps j = None) js)"
      by simp
    from Cons.IH [OF l] obtain fb where fb: "full_branch ps js it = Inr fb"
      "length fb = length js"
      "\<forall>t<length js. \<forall>p. map_of ps (js ! t) = Some p \<longrightarrow> fb ! t = p"
      "map fst (filter (\<lambda>q. map_of ps (snd q) = None) (zip fb js)) = it"
      by blast
    have "full_branch ps (j # js) it = Inr (p # fb)"
      using Some fb(1) by simp
    moreover have "\<forall>t<length (j # js). \<forall>q. map_of ps ((j # js) ! t) = Some q \<longrightarrow> (p # fb) ! t = q"
      using Some fb(3) by (auto simp: nth_Cons split: nat.splits)
    ultimately show ?thesis
      using Some fb(2,4) by simp
  qed
qed

lemma full_branch_measurements:
  assumes "length it = length (filter (\<lambda>m. postselect m = None) ms)"
  shows "\<exists>fb. full_branch (ps_of ms) [0 ..< length ms] it = Inr fb \<and> length fb = length ms
           \<and> (\<forall>j<length ms. \<forall>p. postselect (ms ! j) = Some p \<longrightarrow> fb ! j = p)
           \<and> nths fb {j. j < length ms \<and> postselect (ms ! j) = None} = it"
proof -
  have eq: "filter (\<lambda>j. map_of (ps_of ms) j = None) [0 ..< length ms] =
            filter (\<lambda>j. postselect (ms ! j) = None) [0 ..< length ms]"
    by (rule filter_cong) (simp_all add: map_of_ps_of)
  have "length it = length (filter (\<lambda>j. map_of (ps_of ms) j = None) [0 ..< length ms])"
    using assms by (simp only: eq free_positions_count)
  from full_branch_char [OF this] obtain fb where
    fb: "full_branch (ps_of ms) [0 ..< length ms] it = Inr fb"
    "length fb = length [0 ..< length ms]"
    "\<forall>t<length [0 ..< length ms]. \<forall>p. map_of (ps_of ms) ([0 ..< length ms] ! t) = Some p
        \<longrightarrow> fb ! t = p"
    "map fst (filter (\<lambda>q. map_of (ps_of ms) (snd q) = None) (zip fb [0 ..< length ms])) = it"
    by blast
  have len: "length fb = length ms" using fb(2) by simp
  have fixed: "\<forall>j<length ms. \<forall>p. postselect (ms ! j) = Some p \<longrightarrow> fb ! j = p"
    using fb(3) by (simp add: map_of_ps_of)
  have "filter (\<lambda>q. snd q \<in> {j. j < length ms \<and> postselect (ms ! j) = None})
           (zip fb [0 ..< length fb]) =
        filter (\<lambda>q. map_of (ps_of ms) (snd q) = None) (zip fb [0 ..< length ms])"
    by (rule filter_cong) (auto simp: len map_of_ps_of dest: set_zip_rightD)
  then have "nths fb {j. j < length ms \<and> postselect (ms ! j) = None} = it"
    using fb(4) by (simp add: nths_def)
  with fb(1) len fixed show ?thesis by blast
qed


lemma all_postselected_values:
  assumes "\<forall>m\<in>set ms. postselect m \<noteq> None"
  shows "map snd (ps_of ms) = map (\<lambda>m. the (postselect m)) ms"
proof -
  from assms have "filter (\<lambda>x. x \<noteq> None) (map postselect ms) = map postselect ms"
    by (simp add: filter_id_conv)
  then show ?thesis
    by (simp add: ps_of_def map_snd_map_filter_enumerate)
qed

lemma postselected_items_char:
  assumes total:
    "\<forall>b. length b = length (measurements mv)
        \<and> (\<forall>j<length (measurements mv). \<forall>q. postselect (measurements mv ! j) = Some q \<longrightarrow> b ! j = q)
        \<and> (\<forall>j<length (measurements mv). postselect (measurements mv ! j) = None \<longrightarrow> b ! j \<in> {0, 1})
        \<longrightarrow> (\<exists>v. processing_fn mv b = Inr v)"
  shows "\<exists>es. postselected_items mv = Inr es
     \<and> length es = 2 ^ length (filter (\<lambda>m. postselect m = None) (measurements mv))
     \<and> (\<forall>i<2 ^ length (filter (\<lambda>m. postselect m = None) (measurements mv)).
           fst (es ! i) = bits_msb (length (filter (\<lambda>m. postselect m = None) (measurements mv))) i
         \<and> (\<exists>full. length full = length (measurements mv)
               \<and> (\<forall>j<length (measurements mv). \<forall>q.
                     postselect (measurements mv ! j) = Some q \<longrightarrow> full ! j = q)
               \<and> nths full {j. j < length (measurements mv)
                               \<and> postselect (measurements mv ! j) = None} = fst (es ! i)
               \<and> processing_fn mv full = Inr (snd (es ! i))))"
proof -
  define ms where "ms = measurements mv"
  define n where "n = length ms"
  define k where "k = length (filter (\<lambda>m. postselect m = None) ms)"
  define free where "free = {j. j < n \<and> postselect (ms ! j) = None}"
  define good where "good full bs v \<longleftrightarrow> length full = n
      \<and> (\<forall>j<n. \<forall>q. postselect (ms ! j) = Some q \<longrightarrow> full ! j = q)
      \<and> nths full free = bs \<and> processing_fn mv full = Inr v" for full bs v
  have nk: "n - length (ps_of ms) = k"
    by (simp add: n_def k_def num_non_ps)
  have branch: "\<exists>full v. full_branch (ps_of ms) [0 ..< n] bs = Inr full \<and> good full bs v"
    if bs: "length bs = k" "set bs \<subseteq> {0, 1}" for bs
  proof -
    from full_branch_measurements [of bs ms] bs(1)
    obtain fb where fb: "full_branch (ps_of ms) [0 ..< n] bs = Inr fb" "length fb = n"
      "\<forall>j<n. \<forall>p. postselect (ms ! j) = Some p \<longrightarrow> fb ! j = p"
      "nths fb free = bs"
      unfolding n_def k_def free_def by blast
    have "\<forall>j<n. postselect (ms ! j) = None \<longrightarrow> fb ! j \<in> {0, 1}"
    proof (intro allI impI)
      fix j assume "j < n" "postselect (ms ! j) = None"
      then have "fb ! j \<in> set (nths fb free)"
        using fb(2) by (auto simp: set_nths free_def)
      with fb(4) bs(2) show "fb ! j \<in> {0, 1}" by auto
    qed
    with total fb(2,3) obtain v where "processing_fn mv fb = Inr v"
      unfolding ms_def [symmetric] n_def [symmetric] by blast
    with fb show ?thesis unfolding good_def by blast
  qed
  show ?thesis
  proof (cases "k = 0")
    case True
    then have allps: "\<forall>m\<in>set ms. postselect m \<noteq> None"
      by (simp add: k_def filter_empty_conv)
    have "length ([]::int list) = k" "set ([]::int list) \<subseteq> {0, 1}" using True by simp_all
    from branch [OF this] obtain full v where
      fb: "full_branch (ps_of ms) [0 ..< n] [] = Inr full" and g: "good full [] v"
      by blast
    have "full = map snd (ps_of ms)"
    proof (rule nth_equalityI)
      show "length full = length (map snd (ps_of ms))"
        using g by (simp add: good_def all_postselected_values [OF allps] n_def)
    next
      fix j assume "j < length full"
      then have j: "j < n" using g by (simp add: good_def)
      then have "ms ! j \<in> set ms" by (simp add: n_def)
      with allps obtain q where "postselect (ms ! j) = Some q" by auto
      with g j show "full ! j = map snd (ps_of ms) ! j"
        by (simp add: good_def all_postselected_values [OF allps] n_def)
    qed
    with g have v: "processing_fn mv (map snd (ps_of ms)) = Inr v" by (simp add: good_def)
    have "postselected_items mv = Inr [([], v)]"
      unfolding postselected_items_def Let_def ms_def [symmetric] n_def [symmetric] nk
      using True v by simp
    moreover have "bits_msb 0 0 = []" by (simp add: bits_msb_def)
    ultimately have "postselected_items mv = Inr [([], v)]
        \<and> length [([]::int list, v)] = 2 ^ k
        \<and> (\<forall>i<2 ^ k. fst ([([], v)] ! i) = bits_msb k i
         \<and> (\<exists>full. good full (fst ([([], v)] ! i)) (snd ([([], v)] ! i))))"
      using g True by auto
    then show ?thesis
      unfolding good_def k_def free_def n_def ms_def by blast
  next
    case False
    define g where "g i = (bits_msb k i,
        projr (processing_fn mv (projr (full_branch (ps_of ms) [0 ..< n] (bits_msb k i)))))" for i
    have gi: "\<exists>full. full_branch (ps_of ms) [0 ..< n] (bits_msb k i) = Inr full
        \<and> good full (bits_msb k i) (snd (g i))" for i
    proof -
      have "length (bits_msb k i) = k" "set (bits_msb k i) \<subseteq> {0, 1}"
        using set_bits_msb [of k i] by simp_all
      from branch [OF this] obtain full v where
        "full_branch (ps_of ms) [0 ..< n] (bits_msb k i) = Inr full" "good full (bits_msb k i) v"
        by blast
      moreover from this have "snd (g i) = v" by (simp add: g_def good_def)
      ultimately show ?thesis by blast
    qed
    have step: "(let non_ps_branch = branch_of k i
                 in and_then (full_branch (ps_of ms) [0 ..< n] non_ps_branch)
                      (\<lambda>fb. and_then (processing_fn mv fb) (\<lambda>v. Inr (non_ps_branch, v))))
                = Inr (g i)" if "i \<in> set [0 ..< 2 ^ k]" for i
    proof -
      from that False have b: "branch_of k i = bits_msb k i"
        by (simp add: branch_of_bits_msb)
      from gi [of i] obtain full where
        f: "full_branch (ps_of ms) [0 ..< n] (bits_msb k i) = Inr full"
        and v: "processing_fn mv full = Inr (snd (g i))"
        by (auto simp: good_def)
      have "fst (g i) = bits_msb k i" by (simp add: g_def)
      then have "(bits_msb k i, snd (g i)) = g i" by (simp add: prod_eq_iff)
      then show ?thesis
        by (simp only: Let_def b f and_then_Inr v)
    qed
    have "traverse
            (\<lambda>i. let non_ps_branch = branch_of k i
                 in and_then (full_branch (ps_of ms) [0 ..< n] non_ps_branch)
                      (\<lambda>fb. and_then (processing_fn mv fb) (\<lambda>v. Inr (non_ps_branch, v))))
            [0 ..< 2 ^ k] = Inr (map g [0 ..< 2 ^ k])"
      by (rule traverse_Inr_map) (rule step)
    then have items: "postselected_items mv = Inr (map g [0 ..< 2 ^ k])"
      unfolding postselected_items_def Let_def ms_def [symmetric] n_def [symmetric] nk
      using False by simp
    define es where "es = map g [0 ..< 2 ^ k]"
    have len: "length es = 2 ^ k" by (simp add: es_def)
    have ent: "\<forall>i<2 ^ k. fst (es ! i) = bits_msb k i
         \<and> (\<exists>full. good full (fst (es ! i)) (snd (es ! i)))"
    proof (intro allI impI)
      fix i :: nat assume "i < 2 ^ k"
      then have e: "es ! i = g i" by (simp add: es_def)
      have f: "fst (g i) = bits_msb k i" by (simp add: g_def)
      from gi [of i] show "fst (es ! i) = bits_msb k i
         \<and> (\<exists>full. good full (fst (es ! i)) (snd (es ! i)))"
        unfolding e f by blast
    qed
    from items have "postselected_items mv = Inr es" by (simp only: es_def)
    with len ent have "postselected_items mv = Inr es
        \<and> length es = 2 ^ k
        \<and> (\<forall>i<2 ^ k. fst (es ! i) = bits_msb k i
         \<and> (\<exists>full. good full (fst (es ! i)) (snd (es ! i))))"
      by blast
    then show ?thesis
      unfolding good_def k_def free_def n_def ms_def by blast
  qed
qed

text \<open>
  Claim C5. Let \<open>n\<close> be the number of measurements, \<open>p\<close> of which carry a postselection
  value, and let the processing function return on every vector of length \<open>n\<close> that has
  the declared value at each postselected position and a bit at every other position.
  Then \<^verbatim>\<open>postselected_items\<close> yields exactly \<open>2 ^ (n - p)\<close> entries; the assignment of entry
  \<open>i\<close> is the \<open>(n - p)\<close>-bit binary representation of \<open>i\<close>; its output is the processing
  function evaluated on a full vector of length \<open>n\<close> that has the declared value at every
  postselected position and, read at the free positions in their order, is the
  assignment. When \<open>p = n\<close> there is exactly one entry, the empty assignment paired with the
  evaluation at the vector of the declared values.
\<close>

theorem postselected_items_enumeration:
  assumes n: "n = length (measurements mv)"
    and p: "p = length (filter (\<lambda>m. postselect m \<noteq> None) (measurements mv))"
    and total:
      "\<forall>b. length b = n
          \<and> (\<forall>j<n. \<forall>q. postselect (measurements mv ! j) = Some q \<longrightarrow> b ! j = q)
          \<and> (\<forall>j<n. postselect (measurements mv ! j) = None \<longrightarrow> b ! j \<in> {0, 1})
          \<longrightarrow> (\<exists>v. processing_fn mv b = Inr v)"
  shows "\<exists>es. postselected_items mv = Inr es
     \<and> length es = 2 ^ (n - p)
     \<and> (\<forall>i<2 ^ (n - p).
           fst (es ! i) = bits_msb (n - p) i
         \<and> (\<exists>full. length full = n
               \<and> (\<forall>j<n. \<forall>q. postselect (measurements mv ! j) = Some q \<longrightarrow> full ! j = q)
               \<and> nths full {j. j < n \<and> postselect (measurements mv ! j) = None} = fst (es ! i)
               \<and> processing_fn mv full = Inr (snd (es ! i))))
     \<and> (p = n \<longrightarrow>
           (\<exists>v. es = [([], v)]
              \<and> processing_fn mv (map (\<lambda>m. the (postselect m)) (measurements mv)) = Inr v))"
proof -
  have k: "length (filter (\<lambda>m. postselect m = None) (measurements mv)) = n - p"
    using sum_length_filter_compl [of "\<lambda>m. postselect m \<noteq> None" "measurements mv"]
    by (simp add: n p)
  from postselected_items_char [OF total [unfolded n]] obtain es where
    es: "postselected_items mv = Inr es" "length es = 2 ^ (n - p)"
    and ent: "\<forall>i<2 ^ (n - p).
           fst (es ! i) = bits_msb (n - p) i
         \<and> (\<exists>full. length full = n
               \<and> (\<forall>j<n. \<forall>q. postselect (measurements mv ! j) = Some q \<longrightarrow> full ! j = q)
               \<and> nths full {j. j < n \<and> postselect (measurements mv ! j) = None} = fst (es ! i)
               \<and> processing_fn mv full = Inr (snd (es ! i)))"
    unfolding k n by blast
  have "\<exists>v. es = [([], v)]
      \<and> processing_fn mv (map (\<lambda>m. the (postselect m)) (measurements mv)) = Inr v" if "p = n"
  proof -
    from that k have "filter (\<lambda>m. postselect m = None) (measurements mv) = []" by simp
    then have allps: "\<forall>m\<in>set (measurements mv). postselect m \<noteq> None"
      by (simp add: filter_empty_conv)
    from that es(2) have l: "length es = 1" by simp
    from that ent obtain full where f0: "fst (es ! 0) = bits_msb 0 0"
      and full: "length full = n"
        "\<forall>j<n. \<forall>q. postselect (measurements mv ! j) = Some q \<longrightarrow> full ! j = q"
        "processing_fn mv full = Inr (snd (es ! 0))"
      by auto
    have "full = map (\<lambda>m. the (postselect m)) (measurements mv)"
    proof (rule nth_equalityI)
      show "length full = length (map (\<lambda>m. the (postselect m)) (measurements mv))"
        using full(1) n by simp
    next
      fix j assume "j < length full"
      then have j: "j < n" using full(1) by simp
      then have "measurements mv ! j \<in> set (measurements mv)" by (simp add: n)
      with allps obtain q where "postselect (measurements mv ! j) = Some q" by auto
      with full(2) j show "full ! j = map (\<lambda>m. the (postselect m)) (measurements mv) ! j"
        by (simp add: n)
    qed
    moreover from l f0 have "es = [([], snd (es ! 0))]"
      by (cases es) (auto simp: bits_msb_def prod_eq_iff)
    ultimately show ?thesis using full(3) by blast
  qed
  with es ent show ?thesis by blast
qed

theorem postselected_items_enumeration_witness:
  "\<exists>es. postselected_items
           \<lparr>measurements =
              [\<lparr>wires = [0::nat], reset = False, postselect = Some 1, id_mp = ''a''\<rparr>,
               \<lparr>wires = [1], reset = False, postselect = None, id_mp = ''b''\<rparr>],
            processing_fn = (\<lambda>x. Inr x)\<rparr> = Inr es
      \<and> length es = 2 \<and> fst (es ! 0) = [0] \<and> fst (es ! 1) = [1]"
proof -
  let ?mv = "\<lparr>measurements =
              [\<lparr>wires = [0::nat], reset = False, postselect = Some 1, id_mp = ''a''\<rparr>,
               \<lparr>wires = [1], reset = False, postselect = None, id_mp = ''b''\<rparr>],
            processing_fn = (\<lambda>x. Inr x)\<rparr>"
  have n: "(2::nat) = length (measurements ?mv)" by simp
  have p: "(1::nat) = length (filter (\<lambda>m. postselect m \<noteq> None) (measurements ?mv))" by simp
  have total: "\<forall>b. length b = (2::nat)
          \<and> (\<forall>j<2. \<forall>q. postselect (measurements ?mv ! j) = Some q \<longrightarrow> b ! j = q)
          \<and> (\<forall>j<2. postselect (measurements ?mv ! j) = None \<longrightarrow> b ! j \<in> {0, 1})
          \<longrightarrow> (\<exists>v. processing_fn ?mv b = Inr v)"
    by simp
  from postselected_items_enumeration [OF n p total] obtain es where
    es: "postselected_items ?mv = Inr es" "length es = 2 ^ (2 - 1)"
    "\<forall>i<2 ^ (2 - 1). fst (es ! i) = bits_msb (2 - 1) i"
    by blast
  from es(3) have "fst (es ! 0) = bits_msb 1 0" "fst (es ! 1) = bits_msb 1 1" by simp_all
  then have "fst (es ! 0) = [0]" "fst (es ! 1) = [1]" by (simp_all add: bits_msb_def)
  with es(1,2) show ?thesis by auto
qed

text \<open>
  Claim C10. A measurement whose postselection value is 0 is a fixed one: its position is
  not among the free positions, which are those with \<^verbatim>\<open>postselect\<close> equal to \<^verbatim>\<open>None\<close> and
  nothing else; the assignments that are enumerated have one bit per free position, so
  fewer than there are measurements; and the full vector of every entry has 0 at the
  position of that measurement.
\<close>

theorem postselect_zero_is_fixed:
  assumes total:
    "\<forall>b. length b = length (measurements mv)
        \<and> (\<forall>t<length (measurements mv). \<forall>q. postselect (measurements mv ! t) = Some q \<longrightarrow> b ! t = q)
        \<and> (\<forall>t<length (measurements mv). postselect (measurements mv ! t) = None \<longrightarrow> b ! t \<in> {0, 1})
        \<longrightarrow> (\<exists>v. processing_fn mv b = Inr v)"
    and j: "j < length (measurements mv)"
    and zero: "postselect (measurements mv ! j) = Some 0"
  shows "\<exists>es. postselected_items mv = Inr es
     \<and> length es = 2 ^ length (filter (\<lambda>m. postselect m = None) (measurements mv))
     \<and> length (filter (\<lambda>m. postselect m = None) (measurements mv)) < length (measurements mv)
     \<and> j \<notin> {t. t < length (measurements mv) \<and> postselect (measurements mv ! t) = None}
     \<and> (\<forall>i<length es.
           length (fst (es ! i)) = length (filter (\<lambda>m. postselect m = None) (measurements mv))
         \<and> (\<exists>full. length full = length (measurements mv)
               \<and> full ! j = 0
               \<and> nths full {t. t < length (measurements mv)
                               \<and> postselect (measurements mv ! t) = None} = fst (es ! i)
               \<and> processing_fn mv full = Inr (snd (es ! i))))"
proof -
  from postselected_items_char [OF total] obtain es where
    es: "postselected_items mv = Inr es"
      "length es = 2 ^ length (filter (\<lambda>m. postselect m = None) (measurements mv))"
    and ent: "\<forall>i<2 ^ length (filter (\<lambda>m. postselect m = None) (measurements mv)).
           fst (es ! i) = bits_msb (length (filter (\<lambda>m. postselect m = None) (measurements mv))) i
         \<and> (\<exists>full. length full = length (measurements mv)
               \<and> (\<forall>j<length (measurements mv). \<forall>q.
                     postselect (measurements mv ! j) = Some q \<longrightarrow> full ! j = q)
               \<and> nths full {j. j < length (measurements mv)
                               \<and> postselect (measurements mv ! j) = None} = fst (es ! i)
               \<and> processing_fn mv full = Inr (snd (es ! i)))"
    by blast
  have "measurements mv ! j \<in> set (measurements mv)" using j by simp
  moreover have "\<not> postselect (measurements mv ! j) = None" using zero by simp
  ultimately have less:
    "length (filter (\<lambda>m. postselect m = None) (measurements mv)) < length (measurements mv)"
    by (rule length_filter_less)
  have "\<forall>i<length es.
           length (fst (es ! i)) = length (filter (\<lambda>m. postselect m = None) (measurements mv))
         \<and> (\<exists>full. length full = length (measurements mv)
               \<and> full ! j = 0
               \<and> nths full {t. t < length (measurements mv)
                               \<and> postselect (measurements mv ! t) = None} = fst (es ! i)
               \<and> processing_fn mv full = Inr (snd (es ! i)))"
  proof (intro allI impI)
    fix i assume "i < length es"
    with es(2) ent obtain full where
      f: "fst (es ! i) = bits_msb (length (filter (\<lambda>m. postselect m = None) (measurements mv))) i"
      and full: "length full = length (measurements mv)"
        "\<forall>j<length (measurements mv). \<forall>q.
            postselect (measurements mv ! j) = Some q \<longrightarrow> full ! j = q"
        "nths full {j. j < length (measurements mv)
                               \<and> postselect (measurements mv ! j) = None} = fst (es ! i)"
        "processing_fn mv full = Inr (snd (es ! i))"
      by auto
    from full(2) j zero have "full ! j = 0" by blast
    moreover from f have
      "length (fst (es ! i)) = length (filter (\<lambda>m. postselect m = None) (measurements mv))"
      by simp
    ultimately show
      "length (fst (es ! i)) = length (filter (\<lambda>m. postselect m = None) (measurements mv))
         \<and> (\<exists>full. length full = length (measurements mv)
               \<and> full ! j = 0
               \<and> nths full {t. t < length (measurements mv)
                               \<and> postselect (measurements mv ! t) = None} = fst (es ! i)
               \<and> processing_fn mv full = Inr (snd (es ! i)))"
      using full(1,3,4) by blast
  qed
  with es less zero show ?thesis by auto
qed

theorem postselect_zero_is_fixed_witness:
  "\<exists>es. postselected_items
           \<lparr>measurements =
              [\<lparr>wires = [0::nat], reset = False, postselect = Some 0, id_mp = ''a''\<rparr>,
               \<lparr>wires = [1], reset = False, postselect = None, id_mp = ''b''\<rparr>],
            processing_fn = (\<lambda>x. Inr x)\<rparr> = Inr es
      \<and> length es = 2"
proof -
  let ?mv = "\<lparr>measurements =
              [\<lparr>wires = [0::nat], reset = False, postselect = Some 0, id_mp = ''a''\<rparr>,
               \<lparr>wires = [1], reset = False, postselect = None, id_mp = ''b''\<rparr>],
            processing_fn = (\<lambda>x. Inr x)\<rparr>"
  have total: "\<forall>b. length b = length (measurements ?mv)
        \<and> (\<forall>t<length (measurements ?mv). \<forall>q. postselect (measurements ?mv ! t) = Some q \<longrightarrow> b ! t = q)
        \<and> (\<forall>t<length (measurements ?mv). postselect (measurements ?mv ! t) = None \<longrightarrow> b ! t \<in> {0, 1})
        \<longrightarrow> (\<exists>v. processing_fn ?mv b = Inr v)"
    by simp
  have j: "(0::nat) < length (measurements ?mv)" by simp
  have zero: "postselect (measurements ?mv ! 0) = Some 0" by simp
  from postselect_zero_is_fixed [OF total j zero] obtain es where
    "postselected_items ?mv = Inr es"
    "length es = 2 ^ length (filter (\<lambda>m. postselect m = None) (measurements ?mv))"
    by blast
  then show ?thesis by auto
qed

section \<open>Merging and evaluating measurement values\<close>

lemma and_then_assoc: "and_then (and_then r f) g = and_then r (\<lambda>v. and_then (f v) g)"
  by (cases r) simp_all

lemma index_Inr:
  "m \<in> set xs \<Longrightarrow> \<exists>i. index xs m = Inr i \<and> i < length xs \<and> xs ! i = m"
  by (induction xs) auto

lemma sub_args_map:
  assumes "set ms \<subseteq> set merged"
  shows "\<exists>idxs. positions merged ms = Inr idxs
           \<and> sub_args (map g merged) idxs = Inr (map g ms)"
proof -
  define idx where "idx m = projr (index merged m)" for m
  have idx: "index merged m = Inr (idx m) \<and> idx m < length merged \<and> merged ! idx m = m"
    if "m \<in> set ms" for m
  proof -
    from that assms have "m \<in> set merged" by auto
    from index_Inr [OF this] obtain i where
      "index merged m = Inr i" "i < length merged" "merged ! i = m" by blast
    then show ?thesis by (simp add: idx_def)
  qed
  have 1: "traverse (index merged) ms = Inr (map idx ms)"
    by (rule traverse_Inr_map) (simp add: idx)
  have 2: "traverse (\<lambda>i. if i < length (map g merged) then Inr (map g merged ! i)
                         else Inl IndexError) (map idx ms) = Inr (map g ms)"
  proof -
    have "traverse (\<lambda>i. if i < length (map g merged) then Inr (map g merged ! i)
                         else Inl IndexError) (map idx ms)
          = Inr (map (\<lambda>i. g (merged ! i)) (map idx ms))"
      by (rule traverse_Inr_map) (auto simp: idx)
    moreover have "map (\<lambda>i. g (merged ! i)) (map idx ms) = map g ms"
      by (simp add: idx)
    ultimately show ?thesis by simp
  qed
  from 1 2 show ?thesis
    unfolding positions_def sub_args_def by blast
qed

lemma traverse_lookup_iff:
  "traverse (\<lambda>meas. case outcomes meas of None \<Rightarrow> Inl KeyError | Some v \<Rightarrow> Inr v) ms = Inr vs
     \<longleftrightarrow> (\<forall>m\<in>set ms. outcomes m \<noteq> None) \<and> vs = map (\<lambda>m. the (outcomes m)) ms"
  by (induction ms arbitrary: vs) (auto simp: and_then_eq_Inr split: option.splits)

lemma concretize_eq_Inr:
  "concretize mv outcomes = Inr a \<longleftrightarrow>
     (\<forall>m\<in>set (measurements mv). outcomes m \<noteq> None)
       \<and> processing_fn mv (map (\<lambda>m. the (outcomes m)) (measurements mv)) = Inr a"
  by (auto simp: concretize_def and_then_eq_Inr traverse_lookup_iff)

lemma set_measurements_merge [simp]:
  "set (measurements (merge A B)) = set (measurements A) \<union> set (measurements B)"
  by (simp add: merge_def Let_def)

lemma concretize_merge:
  assumes "concretize A outcomes = Inr a" and "concretize B outcomes = Inr b"
  shows "concretize (merge A B) outcomes = Inr (a, b)"
proof -
  define M where "M = sort_key id_mp (remdups (measurements A @ measurements B))"
  define g where "g m = the (outcomes m)" for m
  have setM: "set M = set (measurements A) \<union> set (measurements B)"
    by (simp add: M_def)
  from assms have dom: "\<forall>m\<in>set M. outcomes m \<noteq> None"
    and a: "processing_fn A (map g (measurements A)) = Inr a"
    and b: "processing_fn B (map g (measurements B)) = Inr b"
    by (auto simp: concretize_eq_Inr setM g_def [abs_def])
  have "set (measurements A) \<subseteq> set M" by (simp add: setM)
  from sub_args_map [OF this, of g] obtain is_1 where
    pa: "positions M (measurements A) = Inr is_1"
    and sa: "sub_args (map g M) is_1 = Inr (map g (measurements A))"
    by blast
  have "set (measurements B) \<subseteq> set M" by (simp add: setM)
  from sub_args_map [OF this, of g] obtain is_2 where
    pb: "positions M (measurements B) = Inr is_2"
    and sb: "sub_args (map g M) is_2 = Inr (map g (measurements B))"
    by blast
  have m: "measurements (merge A B) = M" by (simp add: merge_def M_def Let_def)
  have "processing_fn (merge A B) (map g M) = Inr (a, b)"
    by (simp add: merge_def Let_def M_def [symmetric] pa pb sa sb a b)
  with dom m show ?thesis
    by (simp add: concretize_eq_Inr g_def [abs_def])
qed

lemma concretize_apply_mv:
  "concretize (apply_mv A fn) outcomes = and_then (concretize A outcomes) fn"
  by (simp add: concretize_def apply_mv_def and_then_assoc)

lemma concretize_invert:
  "concretize A outcomes = Inr a \<Longrightarrow> concretize (invert A) outcomes = Inr (\<not> a)"
  by (simp add: invert_def concretize_apply_mv logical_not_def)

lemma concretize_and_mv:
  "concretize A outcomes = Inr a \<Longrightarrow> concretize B outcomes = Inr b \<Longrightarrow>
   concretize (and_mv A (Measured B)) outcomes = Inr (a \<and> b)"
  by (simp add: and_mv_def transform_bin_op_def concretize_apply_mv concretize_merge
      logical_and_def)

section \<open>Mutually exclusive predicates\<close>

lemma mcm_loop_prefix: "\<exists>rest. mcm_loop cs new_conds false_cond = new_conds @ rest"
  by (induction cs arbitrary: new_conds false_cond) (auto, metis append.assoc)

lemma length_mcm_loop:
  "length (mcm_loop cs new_conds false_cond) = length new_conds + length cs + 1"
  by (induction cs arbitrary: new_conds false_cond) auto

lemma mcm_loop_invariant:
  assumes "\<forall>c\<in>set cs. \<exists>b. concretize c outcomes = Inr b"
    and "\<forall>q\<in>set new_conds. \<exists>b. concretize q outcomes = Inr b"
    and "concretize false_cond outcomes = Inr f"
    and "length (filter (\<lambda>q. concretize q outcomes = Inr True) new_conds) = (if f then 0 else 1)"
  shows "(\<forall>q\<in>set (mcm_loop cs new_conds false_cond). \<exists>b. concretize q outcomes = Inr b)
       \<and> length (filter (\<lambda>q. concretize q outcomes = Inr True)
                   (mcm_loop cs new_conds false_cond)) = 1"
  using assms
proof (induction cs arbitrary: new_conds false_cond f)
  case Nil
  then show ?case by auto
next
  case (Cons c cs)
  from Cons.prems(1) obtain b where b: "concretize c outcomes = Inr b" by auto
  have q: "concretize (and_mv false_cond (Measured c)) outcomes = Inr (f \<and> b)"
    using Cons.prems(3) b by (rule concretize_and_mv)
  have nb: "concretize (invert c) outcomes = Inr (\<not> b)"
    using b by (rule concretize_invert)
  have fc: "concretize (and_mv false_cond (Measured (invert c))) outcomes = Inr (f \<and> \<not> b)"
    using Cons.prems(3) nb by (rule concretize_and_mv)
  have 1: "\<forall>c\<in>set cs. \<exists>b. concretize c outcomes = Inr b" using Cons.prems(1) by simp
  have 2: "\<forall>q\<in>set (new_conds @ [and_mv false_cond (Measured c)]).
             \<exists>b. concretize q outcomes = Inr b"
    using Cons.prems(2) q by auto
  have 4: "length (filter (\<lambda>q. concretize q outcomes = Inr True)
                     (new_conds @ [and_mv false_cond (Measured c)]))
           = (if f \<and> \<not> b then 0 else 1)"
    using Cons.prems(4) q by auto
  from Cons.IH [OF 1 2 fc 4] show ?case by simp
qed

lemma ex1_zero:
  assumes "Q (0::nat)"
  shows "(\<exists>!j. j < Suc n \<and> Q j) \<longleftrightarrow> \<not> (\<exists>j<n. Q (Suc j))"
proof
  assume u: "\<exists>!j. j < Suc n \<and> Q j"
  show "\<not> (\<exists>j<n. Q (Suc j))"
  proof
    assume "\<exists>j<n. Q (Suc j)"
    then obtain j where "Suc j < Suc n \<and> Q (Suc j)" by auto
    moreover have "0 < Suc n \<and> Q 0" using assms by simp
    ultimately have "Suc j = 0" using u by blast
    then show False by simp
  qed
next
  assume n: "\<not> (\<exists>j<n. Q (Suc j))"
  show "\<exists>!j. j < Suc n \<and> Q j"
  proof (rule ex1I [of _ 0])
    show "0 < Suc n \<and> Q 0" using assms by simp
  next
    fix k assume k: "k < Suc n \<and> Q k"
    show "k = 0"
    proof (cases k)
      case 0
      then show ?thesis .
    next
      case (Suc k')
      with k n show ?thesis by auto
    qed
  qed
qed

lemma ex1_shift:
  assumes "\<not> Q (0::nat)"
  shows "(\<exists>!j. j < Suc n \<and> Q j) \<longleftrightarrow> (\<exists>!j. j < n \<and> Q (Suc j))"
proof
  assume "\<exists>!j. j < Suc n \<and> Q j"
  then obtain j where j: "j < Suc n" "Q j"
    and u: "\<And>k. k < Suc n \<and> Q k \<Longrightarrow> k = j"
    by blast
  from j assms obtain j' where j': "j = Suc j'" by (cases j) auto
  show "\<exists>!j. j < n \<and> Q (Suc j)"
  proof (rule ex1I [of _ j'])
    show "j' < n \<and> Q (Suc j')" using j j' by simp
  next
    fix k assume "k < n \<and> Q (Suc k)"
    then have "Suc k < Suc n \<and> Q (Suc k)" by simp
    from u [OF this] j' show "k = j'" by simp
  qed
next
  assume "\<exists>!j. j < n \<and> Q (Suc j)"
  then obtain j where j: "j < n" "Q (Suc j)"
    and u: "\<And>k. k < n \<and> Q (Suc k) \<Longrightarrow> k = j"
    by blast
  show "\<exists>!j. j < Suc n \<and> Q j"
  proof (rule ex1I [of _ "Suc j"])
    show "Suc j < Suc n \<and> Q (Suc j)" using j by simp
  next
    fix k assume k: "k < Suc n \<and> Q k"
    with assms obtain k' where k': "k = Suc k'" by (cases k) auto
    with k have "k' < n \<and> Q (Suc k')" by simp
    from u [OF this] k' show "k = Suc j" by simp
  qed
qed

lemma filter_single_iff:
  "length (filter P xs) = 1 \<longleftrightarrow> (\<exists>!j. j < length xs \<and> P (xs ! j))"
proof (induction xs)
  case Nil
  then show ?case by auto
next
  case (Cons x xs)
  show ?case
  proof (cases "P x")
    case True
    have "(\<exists>!j. j < Suc (length xs) \<and> P ((x # xs) ! j))
            \<longleftrightarrow> \<not> (\<exists>j<length xs. P ((x # xs) ! Suc j))"
      by (rule ex1_zero) (simp add: True)
    moreover have "filter P xs = [] \<longleftrightarrow> \<not> (\<exists>j<length xs. P (xs ! j))"
      unfolding filter_empty_conv by (metis in_set_conv_nth)
    ultimately show ?thesis using True by simp
  next
    case False
    have "(\<exists>!j. j < Suc (length xs) \<and> P ((x # xs) ! j))
            \<longleftrightarrow> (\<exists>!j. j < length xs \<and> P ((x # xs) ! Suc j))"
      by (rule ex1_shift) (simp add: False)
    with Cons.IH False show ?thesis by simp
  qed
qed


text \<open>
  Claim C1. For a non-empty sequence of \<open>k + 1\<close> boolean-valued predicates and any outcomes
  under which each of them evaluates to a truth value, \<^verbatim>\<open>get_mcm_predicates\<close> returns \<open>k + 2\<close>
  measurement values; each of them evaluates to a truth value under the same outcomes,
  exactly one of them to true; and when the first predicate is true, the first returned
  value is true and every other one is false.
\<close>

theorem get_mcm_predicates_partition:
  assumes nonempty: "conditions \<noteq> []"
    and defined: "\<forall>p\<in>set conditions. \<exists>b. concretize p outcomes = Inr b"
  shows "\<exists>qs. get_mcm_predicates conditions = Inr qs
     \<and> length qs = length conditions + 1
     \<and> (\<forall>j<length qs. \<exists>b. concretize (qs ! j) outcomes = Inr b)
     \<and> (\<exists>!j. j < length qs \<and> concretize (qs ! j) outcomes = Inr True)
     \<and> (concretize (conditions ! 0) outcomes = Inr True \<longrightarrow>
          concretize (qs ! 0) outcomes = Inr True
          \<and> (\<forall>j. 0 < j \<and> j < length qs \<longrightarrow> concretize (qs ! j) outcomes = Inr False))"
proof -
  from nonempty obtain c0 cs where cond: "conditions = c0 # cs" by (cases conditions) auto
  define qs where "qs = mcm_loop cs [c0] (invert c0)"
  from defined cond obtain b0 where b0: "concretize c0 outcomes = Inr b0" by auto
  have 1: "\<forall>c\<in>set cs. \<exists>b. concretize c outcomes = Inr b" using defined cond by simp
  have 2: "\<forall>q\<in>set [c0]. \<exists>b. concretize q outcomes = Inr b" using b0 by simp
  have 3: "concretize (invert c0) outcomes = Inr (\<not> b0)" using b0 by (rule concretize_invert)
  have 4: "length (filter (\<lambda>q. concretize q outcomes = Inr True) [c0])
             = (if \<not> b0 then 0 else 1)"
    using b0 by simp
  from mcm_loop_invariant [OF 1 2 3 4]
  have all: "\<forall>q\<in>set qs. \<exists>b. concretize q outcomes = Inr b"
    and one: "length (filter (\<lambda>q. concretize q outcomes = Inr True) qs) = 1"
    by (simp_all add: qs_def)
  have len: "length qs = length conditions + 1"
    by (simp add: qs_def cond length_mcm_loop)
  have ex1: "\<exists>!j. j < length qs \<and> concretize (qs ! j) outcomes = Inr True"
    using one by (simp only: filter_single_iff)
  have alln: "\<forall>j<length qs. \<exists>b. concretize (qs ! j) outcomes = Inr b"
    using all by simp
  from mcm_loop_prefix [of cs "[c0]" "invert c0"] have q0: "qs ! 0 = c0"
    by (auto simp: qs_def)
  have first: "concretize (qs ! 0) outcomes = Inr True
          \<and> (\<forall>j. 0 < j \<and> j < length qs \<longrightarrow> concretize (qs ! j) outcomes = Inr False)"
    if t: "concretize (conditions ! 0) outcomes = Inr True"
  proof (intro conjI allI impI)
    show t0: "concretize (qs ! 0) outcomes = Inr True" using t by (simp add: cond q0)
    fix j assume j: "0 < j \<and> j < length qs"
    with alln obtain b where b: "concretize (qs ! j) outcomes = Inr b" by blast
    have "0 < length qs \<and> concretize (qs ! 0) outcomes = Inr True" using t0 len by simp
    with ex1 j have "concretize (qs ! j) outcomes \<noteq> Inr True" by (metis less_numeral_extra(3))
    with b show "concretize (qs ! j) outcomes = Inr False" by (cases b) simp_all
  qed
  have "get_mcm_predicates conditions = Inr qs" by (simp add: cond qs_def)
  with len alln ex1 first show ?thesis by blast
qed




theorem get_mcm_predicates_partition_witness:
  "\<exists>qs. get_mcm_predicates
          [apply_mv \<lparr>measurements =
                       [\<lparr>wires = [0::nat], reset = False, postselect = None, id_mp = ''a''\<rparr>],
                     processing_fn = identity_fn\<rparr> (\<lambda>v. Inr (v = 1)),
           apply_mv \<lparr>measurements =
                       [\<lparr>wires = [1::nat], reset = False, postselect = None, id_mp = ''b''\<rparr>],
                     processing_fn = identity_fn\<rparr> (\<lambda>v. Inr (v = 1))] = Inr qs
     \<and> length qs = 3
     \<and> (\<exists>!j. j < length qs
           \<and> concretize (qs ! j)
               [\<lparr>wires = [0::nat], reset = False, postselect = None, id_mp = ''a''\<rparr> \<mapsto> 0,
                \<lparr>wires = [1::nat], reset = False, postselect = None, id_mp = ''b''\<rparr> \<mapsto> 1]
             = Inr True)"
proof -
  let ?ra = "\<lparr>wires = [0::nat], reset = False, postselect = None, id_mp = ''a''\<rparr>"
  let ?rb = "\<lparr>wires = [1::nat], reset = False, postselect = None, id_mp = ''b''\<rparr>"
  let ?pa = "apply_mv \<lparr>measurements = [?ra], processing_fn = identity_fn\<rparr> (\<lambda>v. Inr (v = 1))"
  let ?pb = "apply_mv \<lparr>measurements = [?rb], processing_fn = identity_fn\<rparr> (\<lambda>v. Inr (v = 1))"
  let ?out = "[?ra \<mapsto> 0::int, ?rb \<mapsto> 1]"
  have ne: "[?pa, ?pb] \<noteq> []" by simp
  have "concretize ?pa ?out = Inr False" "concretize ?pb ?out = Inr True"
    by (simp_all add: concretize_def apply_mv_def)
  then have d: "\<forall>p\<in>set [?pa, ?pb]. \<exists>b. concretize p ?out = Inr b" by auto
  from get_mcm_predicates_partition [OF ne d] show ?thesis by auto
qed

section \<open>The canonical order of a merge\<close>

lemma sort_key_canonical:
  assumes inj: "inj_on f (set xs)" and set: "set xs = set ys"
    and dx: "distinct xs" and dy: "distinct ys"
  shows "sort_key f xs = sort_key f ys"
proof -
  have "map f (sort_key f xs) = map f (sort_key f ys)"
  proof (rule sorted_distinct_set_unique)
    show "sorted (map f (sort_key f xs))" "sorted (map f (sort_key f ys))"
      by simp_all
    show "distinct (map f (sort_key f xs))"
      using inj dx by (simp add: distinct_map)
    show "distinct (map f (sort_key f ys))"
      using inj dy set by (simp add: distinct_map)
    show "set (map f (sort_key f xs)) = set (map f (sort_key f ys))"
      using set by simp
  qed
  moreover have "inj_on f (set (sort_key f xs) \<union> set (sort_key f ys))"
    using inj set by simp
  ultimately show ?thesis by (simp add: inj_on_map_eq_map)
qed

lemma measurements_merge:
  "measurements (merge A B) = sort_key id_mp (remdups (measurements A @ measurements B))"
  by (simp add: merge_def Let_def)

lemma processing_fn_merge_eq_Inr:
  "processing_fn (merge A B) x = Inr (a, b) \<longleftrightarrow>
     (\<exists>i1 i2 s1 s2.
          positions (measurements (merge A B)) (measurements A) = Inr i1
        \<and> positions (measurements (merge A B)) (measurements B) = Inr i2
        \<and> sub_args x i1 = Inr s1 \<and> processing_fn A s1 = Inr a
        \<and> sub_args x i2 = Inr s2 \<and> processing_fn B s2 = Inr b)"
  by (auto simp: merge_def Let_def and_then_eq_Inr)

text \<open>
  Claim C2, as the code has it: for measurement values A and B whose records are told
  apart by their ids. The measurements of A merged with B are the union of the two lists
  without duplicates, sorted by id: any duplicate-free listing of the union sorts to it,
  so the order in which a set is read does not matter. They are the measurements of B
  merged with A; the two merged processing functions return the same pair on every
  argument list, with the two components swapped; and merging a third value in either
  order gives the same measurements again.
\<close>

theorem merge_commutes:
  assumes inj: "inj_on id_mp (set (measurements A) \<union> set (measurements B))"
  shows "measurements (merge A B) = measurements (merge B A)
     \<and> set (measurements (merge A B)) = set (measurements A) \<union> set (measurements B)
     \<and> distinct (map id_mp (measurements (merge A B)))
     \<and> sorted (map id_mp (measurements (merge A B)))
     \<and> (\<forall>zs. distinct zs \<and> set zs = set (measurements A) \<union> set (measurements B) \<longrightarrow>
            sort_key id_mp zs = measurements (merge A B))
     \<and> (\<forall>x a b. processing_fn (merge A B) x = Inr (a, b)
            \<longleftrightarrow> processing_fn (merge B A) x = Inr (b, a))
     \<and> (\<forall>C. inj_on id_mp (set (measurements A) \<union> set (measurements B)
                             \<union> set (measurements (C :: ('w, 'c) MeasurementValue))) \<longrightarrow>
            measurements (merge (merge A B) C) = measurements (merge (merge B C) A))"
proof -
  let ?u = "remdups (measurements A @ measurements B)"
  have inj': "inj_on id_mp (set ?u)" using inj by simp
  have canon: "sort_key id_mp zs = measurements (merge A B)"
    if "distinct zs \<and> set zs = set (measurements A) \<union> set (measurements B)" for zs
    unfolding measurements_merge
    by (rule sort_key_canonical [symmetric]) (use that inj' in auto)
  have comm: "measurements (merge A B) = measurements (merge B A)"
    unfolding measurements_merge
    by (rule sort_key_canonical) (use inj' in auto)
  have setm: "set (measurements (merge A B)) = set (measurements A) \<union> set (measurements B)"
    by (simp add: measurements_merge)
  have dist: "distinct (map id_mp (measurements (merge A B)))"
    unfolding measurements_merge using inj' by (simp add: distinct_map)
  have sorted: "sorted (map id_mp (measurements (merge A B)))"
    unfolding measurements_merge by simp
  have swap: "processing_fn (merge A B) x = Inr (a, b)
            \<longleftrightarrow> processing_fn (merge B A) x = Inr (b, a)" for x a b
  proof -
    have "processing_fn (merge B A) x = Inr (b, a) \<longleftrightarrow>
     (\<exists>i1 i2 s1 s2.
          positions (measurements (merge A B)) (measurements B) = Inr i1
        \<and> positions (measurements (merge A B)) (measurements A) = Inr i2
        \<and> sub_args x i1 = Inr s1 \<and> processing_fn B s1 = Inr b
        \<and> sub_args x i2 = Inr s2 \<and> processing_fn A s2 = Inr a)"
      by (simp only: processing_fn_merge_eq_Inr [of B A] comm [symmetric])
    then show ?thesis
      by (simp only: processing_fn_merge_eq_Inr [of A B]) blast
  qed
  have assoc: "measurements (merge (merge A B) C) = measurements (merge (merge B C) A)"
    if c: "inj_on id_mp (set (measurements A) \<union> set (measurements B) \<union> set (measurements C))"
    for C :: "('w, 'c) MeasurementValue"
  proof -
    have s: "set (remdups (measurements (merge A B) @ measurements C))
           = set (remdups (measurements (merge B C) @ measurements A))"
      by (auto simp: measurements_merge)
    have i: "inj_on id_mp (set (remdups (measurements (merge A B) @ measurements C)))"
      using c by (simp add: measurements_merge)
    have "sort_key id_mp (remdups (measurements (merge A B) @ measurements C))
        = sort_key id_mp (remdups (measurements (merge B C) @ measurements A))"
      using i s by (rule sort_key_canonical) simp_all
    then show ?thesis by (simp only: measurements_merge [of "merge A B" C]
          measurements_merge [of "merge B C" A])
  qed
  from comm setm dist sorted canon swap assoc show ?thesis by blast
qed


theorem merge_commutes_witness:
  "measurements
     (merge \<lparr>measurements =
               [\<lparr>wires = [0::nat], reset = False, postselect = None, id_mp = ''b''\<rparr>],
             processing_fn = identity_fn\<rparr>
            \<lparr>measurements =
               [\<lparr>wires = [1::nat], reset = False, postselect = None, id_mp = ''a''\<rparr>],
             processing_fn = identity_fn\<rparr>)
   = measurements
     (merge \<lparr>measurements =
               [\<lparr>wires = [1::nat], reset = False, postselect = None, id_mp = ''a''\<rparr>],
             processing_fn = identity_fn\<rparr>
            \<lparr>measurements =
               [\<lparr>wires = [0::nat], reset = False, postselect = None, id_mp = ''b''\<rparr>],
             processing_fn = identity_fn\<rparr>)
   \<and> sorted (map id_mp (measurements
     (merge \<lparr>measurements =
               [\<lparr>wires = [0::nat], reset = False, postselect = None, id_mp = ''b''\<rparr>],
             processing_fn = identity_fn\<rparr>
            \<lparr>measurements =
               [\<lparr>wires = [1::nat], reset = False, postselect = None, id_mp = ''a''\<rparr>],
             processing_fn = identity_fn\<rparr>)))"
proof -
  let ?A = "\<lparr>measurements =
               [\<lparr>wires = [0::nat], reset = False, postselect = None, id_mp = ''b''\<rparr>],
             processing_fn = identity_fn\<rparr>"
  let ?B = "\<lparr>measurements =
               [\<lparr>wires = [1::nat], reset = False, postselect = None, id_mp = ''a''\<rparr>],
             processing_fn = identity_fn\<rparr>"
  have "inj_on id_mp (set (measurements ?A) \<union> set (measurements ?B))" by simp
  from merge_commutes [OF this, where ?'c = int] show ?thesis by blast
qed

text \<open>
  Claim C2 as the specification states it, for all measurement values, fails where two
  records share an id: the value of a record on wire 0 merged with its counterpart
  remapped to wire 1 depends on the id of the record twice, so the union is not
  deduplicated by the identity token.
\<close>

theorem merge_same_id_counterexample:
  "map id_mp
     (measurements
        (merge \<lparr>measurements =
                  [\<lparr>wires = [0::nat], reset = False, postselect = None, id_mp = ''a''\<rparr>],
                processing_fn = identity_fn\<rparr>
               (map_wires
                  \<lparr>measurements =
                     [\<lparr>wires = [0::nat], reset = False, postselect = None, id_mp = ''a''\<rparr>],
                   processing_fn = identity_fn\<rparr> [0 \<mapsto> 1])))
   = [''a'', ''a'']"
  by (simp add: merge_def Let_def map_wires_def map_wires_mp_def)

section \<open>Wire-remapped copies in a merge\<close>





end
